theory Spec2Isabelle
  imports Main "HOL-Library.AList"
begin

section \<open>JavaScript numbers and objects\<close>

text \<open>
  The scheduling engine of the CPM teaching tool exists in three copies: two in
  \<^verbatim>\<open>PP_Sim_App_v1/src/App.tsx\<close> (the file holds the application twice) and one in
  \<^verbatim>\<open>PP_Sim_App_v2/public/app.js\<close>.

  A JavaScript \<^verbatim>\<open>number\<close> is modelled as an integer or one of the three special values.
  Durations reach the engine as \<^verbatim>\<open>parseInt\<close> results or integer literals, and every
  other number is built from them by addition, subtraction, maximum and minimum, so
  all finite values are integers. JavaScript numbers are doubles: every integer up to
  \<open>2^53\<close> in absolute value is one, and a sum or difference of two of them is exact when
  it lies in that range again; beyond it the code rounds. The model adds integers
  exactly, so it speaks for the code as long as the numbers stay in that range, which
  \<open>exact_range\<close> (below, with the data model) states of an input and which the theorems
  about the schedule assume. \<open>NaN\<close> and the infinities are kept because the code produces
  them: a lookup of an absent key is \<^verbatim>\<open>undefined\<close>, which arithmetic turns into \<open>NaN\<close>,
  and \<^verbatim>\<open>Math.max()\<close> of nothing is \<open>-Infinity\<close>.
\<close>

datatype jsnum = Fin int | PInf | NInf | NaN

text \<open>A value read from an object: a number, or \<^verbatim>\<open>undefined\<close> (\<open>None\<close>).\<close>

type_synonym jsval = "jsnum option"

fun to_number :: "jsval \<Rightarrow> jsnum" where
  "to_number None = NaN"
| "to_number (Some x) = x"

fun js_add :: "jsnum \<Rightarrow> jsnum \<Rightarrow> jsnum" where
  "js_add (Fin a) (Fin b) = Fin (a + b)"
| "js_add NaN y = NaN"
| "js_add x NaN = NaN"
| "js_add PInf NInf = NaN"
| "js_add NInf PInf = NaN"
| "js_add PInf y = PInf"
| "js_add x PInf = PInf"
| "js_add NInf y = NInf"
| "js_add x NInf = NInf"

fun js_neg :: "jsnum \<Rightarrow> jsnum" where
  "js_neg (Fin a) = Fin (- a)"
| "js_neg PInf = NInf"
| "js_neg NInf = PInf"
| "js_neg NaN = NaN"

definition js_sub :: "jsnum \<Rightarrow> jsnum \<Rightarrow> jsnum" where
  "js_sub x y = js_add x (js_neg y)"

text \<open>The comparison \<^verbatim>\<open>x < y\<close>: false as soon as one side is \<open>NaN\<close>.\<close>

fun js_lt :: "jsnum \<Rightarrow> jsnum \<Rightarrow> bool" where
  "js_lt NaN y = False"
| "js_lt x NaN = False"
| "js_lt (Fin a) (Fin b) = (a < b)"
| "js_lt NInf NInf = False"
| "js_lt NInf y = True"
| "js_lt PInf y = False"
| "js_lt (Fin a) PInf = True"
| "js_lt (Fin a) NInf = False"

definition js_gt :: "jsnum \<Rightarrow> jsnum \<Rightarrow> bool" where
  "js_gt x y = js_lt y x"

text \<open>
  \<^verbatim>\<open>Math.max(...xs)\<close> and \<^verbatim>\<open>Math.min(...xs)\<close> as ECMAScript defines them: start from
  \<open>-Infinity\<close> (\<open>+Infinity\<close>), answer \<open>NaN\<close> if any argument is \<open>NaN\<close>.
\<close>

fun max_from :: "jsnum \<Rightarrow> jsnum list \<Rightarrow> jsnum" where
  "max_from highest [] = highest"
| "max_from highest (x # xs) =
     (if x = NaN then NaN else max_from (if js_lt highest x then x else highest) xs)"

definition Math_max :: "jsnum list \<Rightarrow> jsnum" where
  "Math_max xs = max_from NInf xs"

fun min_from :: "jsnum \<Rightarrow> jsnum list \<Rightarrow> jsnum" where
  "min_from lowest [] = lowest"
| "min_from lowest (x # xs) =
     (if x = NaN then NaN else min_from (if js_lt x lowest then x else lowest) xs)"

definition Math_min :: "jsnum list \<Rightarrow> jsnum" where
  "Math_min xs = min_from PInf xs"

fun Math_abs :: "jsnum \<Rightarrow> jsnum" where
  "Math_abs (Fin a) = Fin \<bar>a\<bar>"
| "Math_abs PInf = PInf"
| "Math_abs NInf = PInf"
| "Math_abs NaN = NaN"

text \<open>
  \<^verbatim>\<open>x < 1e-9\<close>: the tolerance lies strictly between 0 and 1, so an integer is below it
  exactly when it is at most 0.
\<close>

fun below_tolerance :: "jsnum \<Rightarrow> bool" where
  "below_tolerance (Fin a) = (a \<le> 0)"
| "below_tolerance NInf = True"
| "below_tolerance PInf = False"
| "below_tolerance NaN = False"

text \<open>
  The two defaulting operators. \<^verbatim>\<open>a ?? b\<close> takes \<open>b\<close> only when \<open>a\<close> is
  \<^verbatim>\<open>undefined\<close>; \<^verbatim>\<open>a || b\<close> also when \<open>a\<close> is \<open>0\<close> or \<open>NaN\<close>.
\<close>

fun nullish :: "jsval \<Rightarrow> jsval \<Rightarrow> jsval" where
  "nullish None b = b"
| "nullish (Some a) b = Some a"

fun logical_or :: "jsval \<Rightarrow> jsval \<Rightarrow> jsval" where
  "logical_or None b = b"
| "logical_or (Some a) b = (if a = Fin 0 \<or> a = NaN then b else Some a)"

text \<open>
  A \<^verbatim>\<open>Record<string, V>\<close> is an association list in insertion order: a write to a
  present key replaces the value in place, a write to a new key appends. (Keys that
  look like array indices are enumerated first by JavaScript; the only enumeration
  in the engine, \<^verbatim>\<open>Object.values(EF)\<close>, feeds \<^verbatim>\<open>Math.max\<close>, which does not observe
  the order.)

  The tables of the code are object literals, which inherit from \<^verbatim>\<open>Object.prototype\<close>:
  a read of a key such as \<^verbatim>\<open>constructor\<close> or \<^verbatim>\<open>toString\<close> finds the inherited function
  where the table has no entry of its own, and a write to \<^verbatim>\<open>__proto__\<close> creates no entry.
  \<open>obj_get\<close> and \<open>obj_set\<close> describe the own properties only. That is what the code sees
  as long as no key is a property name of \<^verbatim>\<open>Object.prototype\<close>, which \<open>plain_ids\<close>
  (below, with the data model) states of a task list and which the theorems about
  the orderer and the engine assume.
\<close>

type_synonym 'v obj = "(string \<times> 'v) list"

definition obj_get :: "'v obj \<Rightarrow> string \<Rightarrow> 'v option" where
  "obj_get ob k = map_of ob k"

definition obj_set :: "string \<Rightarrow> 'v \<Rightarrow> 'v obj \<Rightarrow> 'v obj" where
  "obj_set k v ob = AList.update k v ob"

definition Object_values :: "'v obj \<Rightarrow> 'v list" where
  "Object_values ob = map snd ob"

text \<open>\<^verbatim>\<open>a[k] || []\<close> for an object of arrays.\<close>

definition or_empty :: "string list option \<Rightarrow> string list" where
  "or_empty a = (case a of None \<Rightarrow> [] | Some l \<Rightarrow> l)"

section \<open>Data model\<close>

record Task =
  task_id :: string
  task_name :: string
  duration :: int
  deps :: "string list"

record PassResults =
  ES :: "jsnum obj"
  EF :: "jsnum obj"
  LS :: "jsnum obj"
  LF :: "jsnum obj"
  slack :: "jsnum obj"
  critical :: "string set"
  projectDuration :: jsnum

text \<open>Reading a property of \<^verbatim>\<open>undefined\<close> throws.\<close>

datatype error = TypeError

text \<open>
  The property names of \<^verbatim>\<open>Object.prototype\<close>, which every table of the code inherits.
  A task list has plain ids when no id of a task and no id in a \<open>deps\<close> list is one of
  them. The editor of \<^verbatim>\<open>App.tsx\<close> admits ids of at most three characters, in upper
  case, which are plain.
\<close>

definition Object_prototype_names :: "string list" where
  "Object_prototype_names =
     [''constructor'', ''hasOwnProperty'', ''isPrototypeOf'', ''propertyIsEnumerable'',
      ''toLocaleString'', ''toString'', ''valueOf'', ''__proto__'',
      ''__defineGetter__'', ''__defineSetter__'', ''__lookupGetter__'', ''__lookupSetter__'']"

definition plain_ids :: "Task list \<Rightarrow> bool" where
  "plain_ids tasks \<longleftrightarrow>
     (\<forall>t\<in>set tasks. task_id t \<notin> set Object_prototype_names \<and>
        (\<forall>d\<in>set (deps t). d \<notin> set Object_prototype_names))"



section \<open>Graph orderer: topoSort\<close>

text \<open>
  The inner \<^verbatim>\<open>t.deps.forEach\<close> of the table construction: one more in-degree for the
  task, and the task appended to the successor array of the predecessor.
\<close>

fun add_deps :: "string \<Rightarrow> string list \<Rightarrow> jsnum obj \<times> string list obj \<Rightarrow> jsnum obj \<times> string list obj" where
  "add_deps i [] (indeg, graph) = (indeg, graph)"
| "add_deps i (d # ds) (indeg, graph) =
     add_deps i ds
       (obj_set i (js_add (to_number (nullish (obj_get indeg i) (Some (Fin 0)))) (Fin 1)) indeg,
        obj_set d (or_empty (obj_get graph d) @ [i]) graph)"

fun init_tables :: "Task list \<Rightarrow> jsnum obj \<times> string list obj \<Rightarrow> jsnum obj \<times> string list obj" where
  "init_tables [] (indeg, graph) = (indeg, graph)"
| "init_tables (t # ts) (indeg, graph) =
     init_tables ts
       (add_deps (task_id t) (deps t)
          (obj_set (task_id t) (to_number (nullish (obj_get indeg (task_id t)) (Some (Fin 0)))) indeg, graph))"

text \<open>
  The body of the \<^verbatim>\<open>while\<close> loop after the dequeue: every successor loses one
  in-degree and is enqueued when it reaches 0.
\<close>

fun relax :: "string list \<Rightarrow> jsnum obj \<times> string list \<Rightarrow> jsnum obj \<times> string list" where
  "relax [] (indeg, q) = (indeg, q)"
| "relax (v # vs) (indeg, q) =
     (let indeg' = obj_set v (js_sub (to_number (obj_get indeg v)) (Fin 1)) indeg
      in relax vs (indeg', if obj_get indeg' v = Some (Fin 0) then q @ [v] else q))"

text \<open>The number of keys whose in-degree is a positive integer: the loop's variant.\<close>

fun is_pos :: "jsnum \<Rightarrow> bool" where
  "is_pos (Fin n) = (1 \<le> n)"
| "is_pos x = False"

definition pending :: "jsnum obj \<Rightarrow> nat" where
  "pending indeg = length (filter (\<lambda>kv. is_pos (snd kv)) indeg)"

lemma obj_get_set: "obj_get (obj_set k v ob) k' = (if k' = k then Some v else obj_get ob k')"
  by (simp add: obj_get_def obj_set_def update_conv')

lemma pending_obj_set:
  "pending (obj_set v x indeg) + (if is_pos (to_number (obj_get indeg v)) then 1 else 0)
     = pending indeg + (if is_pos x then 1 else 0)"
  by (induction indeg) (auto simp: pending_def obj_set_def obj_get_def)

lemma dec_zero: "js_sub x (Fin 1) = Fin 0 \<longleftrightarrow> x = Fin 1"
  by (cases x) (auto simp: js_sub_def)

lemma relax_variant:
  "relax vs (indeg, q) = (indeg', q') \<Longrightarrow> length q' + pending indeg' = length q + pending indeg"
proof (induction vs arbitrary: indeg q)
  case Nil
  then show ?case by simp
next
  case (Cons v vs)
  let ?x = "js_sub (to_number (obj_get indeg v)) (Fin 1)"
  let ?i = "obj_set v ?x indeg"
  have st: "relax vs (?i, if ?x = Fin 0 then q @ [v] else q) = (indeg', q')"
    using Cons.prems by (simp add: Let_def obj_get_set)
  have p: "pending ?i + (if is_pos (to_number (obj_get indeg v)) then 1 else 0)
     = pending indeg + (if is_pos ?x then 1 else 0)"
    by (rule pending_obj_set)
  show ?case
  proof (cases "?x = Fin 0")
    case True
    then have "to_number (obj_get indeg v) = Fin 1"
      by (simp add: dec_zero)
    with p True have "pending ?i + 1 = pending indeg"
      by simp
    moreover from Cons.IH[of ?i "q @ [v]"] st True
    have "length q' + pending indeg' = length q + 1 + pending ?i"
      by simp
    ultimately show ?thesis by simp
  next
    case False
    have "is_pos ?x = is_pos (to_number (obj_get indeg v))"
      using False by (cases "to_number (obj_get indeg v)") (auto simp: js_sub_def)
    with p have "pending ?i = pending indeg"
      by simp
    moreover from Cons.IH[of ?i q] st False
    have "length q' + pending indeg' = length q + pending ?i"
      by simp
    ultimately show ?thesis by simp
  qed
qed

text \<open>
  The \<^verbatim>\<open>while (q.length)\<close> loop. It terminates on every state: an enqueue happens
  only when an in-degree steps from 1 to 0, which it can do once per key.
\<close>

function kahn_loop :: "string list obj \<Rightarrow> jsnum obj \<Rightarrow> string list \<Rightarrow> string list \<Rightarrow> string list" where
  "kahn_loop graph indeg [] order = order"
| "kahn_loop graph indeg (u # q) order =
     (case relax (or_empty (obj_get graph u)) (indeg, q) of
        (indeg', q') \<Rightarrow> kahn_loop graph indeg' q' (order @ [u]))"
  by pat_completeness auto
termination
  by (relation "measure (\<lambda>(graph, indeg, q, order). length q + pending indeg)")
     (auto dest: relax_variant[OF sym])

text \<open>
  \<^verbatim>\<open>topoSort\<close>. The copy in \<^verbatim>\<open>app.js\<close> writes \<^verbatim>\<open>||\<close> where \<^verbatim>\<open>App.tsx\<close> writes
  \<^verbatim>\<open>??\<close>; on in-degrees (\<^verbatim>\<open>undefined\<close> or a count) the two agree, since \<^verbatim>\<open>0 || 0\<close>
  is \<open>0\<close>. The warning on a short order is console output only.
\<close>

definition topoSort :: "Task list \<Rightarrow> string list" where
  "topoSort tasks =
     (case init_tables tasks ([], []) of
        (indeg, graph) \<Rightarrow>
          kahn_loop graph indeg
            (map task_id
               (filter (\<lambda>t. to_number (nullish (obj_get indeg (task_id t)) (Some (Fin 0))) = Fin 0) tasks))
            [])"

section \<open>CPM engine: computeCPM\<close>

text \<open>\<^verbatim>\<open>Object.fromEntries(tasks.map((t) => [t.id, t]))\<close>: a later task of the same id wins.\<close>

fun fromEntries :: "Task list \<Rightarrow> Task obj \<Rightarrow> Task obj" where
  "fromEntries [] byId = byId"
| "fromEntries (t # ts) byId = fromEntries ts (obj_set (task_id t) t byId)"

text \<open>
  The forward pass over the order. The defaulting operator \<open>dflt\<close> is \<^verbatim>\<open>??\<close> in
  \<^verbatim>\<open>App.tsx\<close> and \<^verbatim>\<open>||\<close> in \<^verbatim>\<open>app.js\<close>.
\<close>

fun forward_pass ::
  "(jsval \<Rightarrow> jsval \<Rightarrow> jsval) \<Rightarrow> Task obj \<Rightarrow> jsnum obj \<Rightarrow> string list \<Rightarrow>
   jsnum obj \<times> jsnum obj \<Rightarrow> error + jsnum obj \<times> jsnum obj" where
  "forward_pass dflt byId minStart [] (es, ef) = Inr (es, ef)"
| "forward_pass dflt byId minStart (i # order) (es, ef) =
     (case obj_get byId i of
        None \<Rightarrow> Inl TypeError
      | Some t \<Rightarrow>
          (let preds = deps t;
               predEF = (if preds \<noteq> [] then Math_max (map (\<lambda>p. to_number (obj_get ef p)) preds) else Fin 0);
               start = Math_max [predEF, to_number (dflt (obj_get minStart i) (Some (Fin 0)))]
           in forward_pass dflt byId minStart order
                (obj_set i start es, obj_set i (js_add start (Fin (duration t))) ef)))"

text \<open>The successor map of the backward pass, built like \<open>graph\<close> in \<open>topoSort\<close>.\<close>

fun add_succs :: "string \<Rightarrow> string list \<Rightarrow> string list obj \<Rightarrow> string list obj" where
  "add_succs i [] succs = succs"
| "add_succs i (d # ds) succs = add_succs i ds (obj_set d (or_empty (obj_get succs d) @ [i]) succs)"

fun build_succs :: "Task list \<Rightarrow> string list obj \<Rightarrow> string list obj" where
  "build_succs [] succs = succs"
| "build_succs (t # ts) succs = build_succs ts (add_succs (task_id t) (deps t) succs)"

fun backward_pass ::
  "Task obj \<Rightarrow> string list obj \<Rightarrow> jsnum \<Rightarrow> string list \<Rightarrow>
   jsnum obj \<times> jsnum obj \<Rightarrow> error + jsnum obj \<times> jsnum obj" where
  "backward_pass byId succs pd [] (ls, lf) = Inr (ls, lf)"
| "backward_pass byId succs pd (i # rev_order) (ls, lf) =
     (case obj_get byId i of
        None \<Rightarrow> Inl TypeError
      | Some t \<Rightarrow>
          (let s = or_empty (obj_get succs i);
               lf' = obj_set i (if s = [] then pd else Math_min (map (\<lambda>v. to_number (obj_get ls v)) s)) lf;
               ls' = obj_set i (js_sub (to_number (obj_get lf' i)) (Fin (duration t))) ls
           in backward_pass byId succs pd rev_order (ls', lf')))"

fun slack_pass :: "jsnum obj \<Rightarrow> jsnum obj \<Rightarrow> Task list \<Rightarrow> jsnum obj \<times> string set \<Rightarrow> jsnum obj \<times> string set" where
  "slack_pass es ls [] (sl, crit) = (sl, crit)"
| "slack_pass es ls (t # ts) (sl, crit) =
     (let sl' = obj_set (task_id t)
                  (js_sub (to_number (obj_get ls (task_id t))) (to_number (obj_get es (task_id t)))) sl
      in slack_pass es ls ts
           (sl', if below_tolerance (Math_abs (to_number (obj_get sl' (task_id t))))
                 then insert (task_id t) crit else crit))"

text \<open>
  The engine, with the two points on which its copies differ as parameters: the
  defaulting operator on \<open>minStart\<close>, and whether the project duration is
  \<^verbatim>\<open>Math.max(...Object.values(EF), 0)\<close> (\<open>with_zero\<close>) or
  \<^verbatim>\<open>Math.max(...Object.values(EF))\<close>.
\<close>

definition cpm :: "(jsval \<Rightarrow> jsval \<Rightarrow> jsval) \<Rightarrow> bool \<Rightarrow> Task list \<Rightarrow> jsnum obj \<Rightarrow> error + PassResults" where
  "cpm dflt with_zero tasks minStart =
     (let order = topoSort tasks;
          byId = fromEntries tasks []
      in case forward_pass dflt byId minStart order ([], []) of
           Inl e \<Rightarrow> Inl e
         | Inr (es, ef) \<Rightarrow>
             (let pd = Math_max (Object_values ef @ (if with_zero then [Fin 0] else []));
                  succs = build_succs tasks []
              in case backward_pass byId succs pd (rev order) ([], []) of
                   Inl e \<Rightarrow> Inl e
                 | Inr (ls, lf) \<Rightarrow>
                     (case slack_pass es ls tasks ([], {}) of
                        (sl, crit) \<Rightarrow>
                          Inr \<lparr>ES = es, EF = ef, LS = ls, LF = lf, slack = sl,
                               critical = crit, projectDuration = pd\<rparr>)))"

text \<open>\<^verbatim>\<open>App.tsx\<close>, first copy (line 103).\<close>

definition computeCPM :: "Task list \<Rightarrow> jsnum obj \<Rightarrow> error + PassResults" where
  "computeCPM = cpm nullish True"

text \<open>\<^verbatim>\<open>App.tsx\<close>, second copy (line 1180): the project duration has no \<open>0\<close> argument.\<close>

definition computeCPM_second :: "Task list \<Rightarrow> jsnum obj \<Rightarrow> error + PassResults" where
  "computeCPM_second = cpm nullish False"

text \<open>\<^verbatim>\<open>app.js\<close> (line 141): \<^verbatim>\<open>minStart[id] || 0\<close>.\<close>

definition computeCPM_v2 :: "Task list \<Rightarrow> jsnum obj \<Rightarrow> error + PassResults" where
  "computeCPM_v2 = cpm logical_or True"

section \<open>Constrained drag propagation\<close>

text \<open>\<^verbatim>\<open>project.tasks.find((t) => t.id === i)\<close>.\<close>

definition find_task :: "Task list \<Rightarrow> string \<Rightarrow> Task option" where
  "find_task tasks i = find (\<lambda>t. task_id t = i) tasks"

text \<open>
  The conservative finish times of the predecessors of a successor, the argument
  list of \<^verbatim>\<open>Math.max\<close> in \<^verbatim>\<open>propagate\<close>. The defaulting operator is \<^verbatim>\<open>??\<close> in
  \<^verbatim>\<open>App.tsx\<close> and \<^verbatim>\<open>||\<close> in \<^verbatim>\<open>app.js\<close>. A predecessor id without a task makes
  \<^verbatim>\<open>find(...).duration\<close> throw.
\<close>

fun conservative_EFs ::
  "(jsval \<Rightarrow> jsval \<Rightarrow> jsval) \<Rightarrow> Task list \<Rightarrow> jsnum obj \<Rightarrow> jsnum obj \<Rightarrow> string list \<Rightarrow> error + jsnum list" where
  "conservative_EFs dflt tasks es m [] = Inr []"
| "conservative_EFs dflt tasks es m (p # ps) =
     (let override = dflt (obj_get m p) (obj_get es p)
      in case find_task tasks p of
           None \<Rightarrow> Inl TypeError
         | Some tp \<Rightarrow>
             (case conservative_EFs dflt tasks es m ps of
                Inl e \<Rightarrow> Inl e
              | Inr efs \<Rightarrow>
                  Inr (js_add (Math_max [to_number override, to_number (obj_get es p)]) (Fin (duration tp)) # efs)))"

text \<open>
  The body of the loop of \<^verbatim>\<open>propagate\<close> up to the test \<^verbatim>\<open>vPredEF > cur\<close>: the value
  \<open>vPredEF\<close> to which the successor \<open>v\<close> is to be raised, or \<open>None\<close> when the test
  fails.
\<close>

definition raise_target ::
  "(jsval \<Rightarrow> jsval \<Rightarrow> jsval) \<Rightarrow> Task list \<Rightarrow> jsnum obj \<Rightarrow> jsnum obj \<Rightarrow> string \<Rightarrow> error + jsnum option" where
  "raise_target dflt tasks es m v =
     (case find_task tasks v of
        None \<Rightarrow> Inl TypeError
      | Some tv \<Rightarrow>
          (case conservative_EFs dflt tasks es m (deps tv) of
             Inl e \<Rightarrow> Inl e
           | Inr efs \<Rightarrow>
               (let vPredEF = Math_max efs;
                    cur = dflt (obj_get m v) (obj_get es v)
                in Inr (if js_gt vPredEF (to_number cur) then Some vPredEF else None))))"

text \<open>
  \<^verbatim>\<open>propagate(u)\<close> (\<^verbatim>\<open>propagateConstraints\<close> in \<^verbatim>\<open>app.js\<close>) and its loop over the
  successors of \<open>u\<close>. The state is the working copy \<^verbatim>\<open>newMinStart\<close>, which the
  recursion mutates, together with a log of the calls made so far (a ghost value:
  the code keeps no such log). The first argument bounds the depth of the
  recursion; \<open>None\<close> says that the bound was reached. \<open>es\<close> is \<^verbatim>\<open>computed.ES\<close>.
\<close>

function (sequential) propagate ::
  "nat \<Rightarrow> (jsval \<Rightarrow> jsval \<Rightarrow> jsval) \<Rightarrow> Task list \<Rightarrow> jsnum obj \<Rightarrow> string \<Rightarrow>
   jsnum obj \<times> string list \<Rightarrow> (error + jsnum obj \<times> string list) option"
and propagate_succs ::
  "nat \<Rightarrow> (jsval \<Rightarrow> jsval \<Rightarrow> jsval) \<Rightarrow> Task list \<Rightarrow> jsnum obj \<Rightarrow> string list \<Rightarrow>
   jsnum obj \<times> string list \<Rightarrow> (error + jsnum obj \<times> string list) option" where
  "propagate 0 dflt tasks es u st = None"
| "propagate (Suc n) dflt tasks es u st =
     propagate_succs n dflt tasks es
       (map task_id (filter (\<lambda>t. u \<in> set (deps t)) tasks)) (fst st, snd st @ [u])"
| "propagate_succs n dflt tasks es [] st = Some (Inr st)"
| "propagate_succs n dflt tasks es (v # vs) st =
     (case raise_target dflt tasks es (fst st) v of
        Inl e \<Rightarrow> Some (Inl e)
      | Inr None \<Rightarrow> propagate_succs n dflt tasks es vs st
      | Inr (Some vPredEF) \<Rightarrow>
          (case propagate n dflt tasks es v (obj_set v vPredEF (fst st), snd st) of
             Some (Inr st') \<Rightarrow> propagate_succs n dflt tasks es vs st'
           | other \<Rightarrow> other))"
  by pat_completeness auto
termination
  by (relation "inv_image (less_than <*lex*> less_than)
        (\<lambda>x. case x of Inl (n, dflt, tasks, es, u, st) \<Rightarrow> (n, 0)
                  | Inr (n, dflt, tasks, es, vs, st) \<Rightarrow> (n, Suc (length vs)))")
     auto

text \<open>
  \<^verbatim>\<open>onBarMouseDown\<close> fixes the start from which the drag is measured.
\<close>

definition onBarMouseDown :: "(jsval \<Rightarrow> jsval \<Rightarrow> jsval) \<Rightarrow> PassResults \<Rightarrow> jsnum obj \<Rightarrow> string \<Rightarrow> jsnum" where
  "onBarMouseDown dflt computed minStart i = to_number (dflt (obj_get minStart i) (obj_get (ES computed) i))"

text \<open>
  \<^verbatim>\<open>onMouseMove\<close> (\<^verbatim>\<open>handleMouseMove\<close> in \<^verbatim>\<open>app.js\<close>) from the point where the pointer
  offset has been rounded to \<open>deltaUnits\<close>: clamp the tentative start, pin the task,
  propagate. The result is the map handed to \<^verbatim>\<open>setMinStart\<close>, with the call log.
\<close>

definition onMouseMove ::
  "nat \<Rightarrow> (jsval \<Rightarrow> jsval \<Rightarrow> jsval) \<Rightarrow> Task list \<Rightarrow> PassResults \<Rightarrow> jsnum obj \<Rightarrow>
   string \<Rightarrow> jsnum \<Rightarrow> int \<Rightarrow> (error + jsnum obj \<times> string list) option" where
  "onMouseMove n dflt tasks computed minStart i origStart deltaUnits =
     (let tentative = Math_max [Fin 0, js_add origStart (Fin deltaUnits)]
      in case find_task tasks i of
           None \<Rightarrow> Some (Inl TypeError)
         | Some t \<Rightarrow>
             (let preds = deps t;
                  predEF = (if preds \<noteq> [] then Math_max (map (\<lambda>p. to_number (obj_get (EF computed) p)) preds) else Fin 0);
                  newStart = Math_max [tentative, predEF];
                  newMinStart = obj_set i newStart minStart
              in propagate n dflt tasks (ES computed) i (newMinStart, [])))"

section \<open>Properties of the graph orderer\<close>


text \<open>
  The dependency edges in the order in which the table construction meets them:
  \<open>(i, d)\<close> for each entry \<open>d\<close> of the \<open>deps\<close> of the task \<open>i\<close>.
\<close>

definition edges :: "Task list \<Rightarrow> (string \<times> string) list" where
  "edges tasks = concat (map (\<lambda>t. map (Pair (task_id t)) (deps t)) tasks)"

lemma relax_spec:
  assumes "\<forall>v\<in>set vs. obj_get indeg v = Some (Fin (c v)) \<and> int (count_list vs v) \<le> c v"
  shows "\<exists>indeg' pushed. relax vs (indeg, q) = (indeg', q @ pushed)
           \<and> (\<forall>v. obj_get indeg' v = (if v \<in> set vs then Some (Fin (c v - int (count_list vs v))) else obj_get indeg v))
           \<and> distinct pushed \<and> (\<forall>v. v \<in> set pushed \<longleftrightarrow> v \<in> set vs \<and> c v = int (count_list vs v))"
  using assms
proof (induction vs arbitrary: indeg q c)
  case Nil
  then show ?case by simp
next
  case (Cons v vs)
  let ?x = "Fin (c v - 1)"
  let ?i = "obj_set v ?x indeg"
  let ?q = "if c v = 1 then q @ [v] else q"
  let ?c = "c(v := c v - 1)"
  have cv: "obj_get indeg v = Some (Fin (c v))" and le: "int (count_list vs v) + 1 \<le> c v"
    using Cons.prems by auto
  have step: "relax (v # vs) (indeg, q) = relax vs (?i, ?q)"
    by (simp add: cv js_sub_def obj_get_set Let_def)
  have pre: "\<forall>w\<in>set vs. obj_get ?i w = Some (Fin (?c w)) \<and> int (count_list vs w) \<le> ?c w"
    using Cons.prems le by (auto simp: obj_get_set)
  from Cons.IH[OF pre, of ?q] obtain indeg' pushed where
    r: "relax vs (?i, ?q) = (indeg', ?q @ pushed)"
    and g: "\<forall>w. obj_get indeg' w = (if w \<in> set vs then Some (Fin (?c w - int (count_list vs w))) else obj_get ?i w)"
    and d: "distinct pushed" and s: "\<forall>w. w \<in> set pushed \<longleftrightarrow> w \<in> set vs \<and> ?c w = int (count_list vs w)"
    by blast
  show ?case
  proof (cases "c v = 1")
    case True
    then have nv: "v \<notin> set vs" using le
      by (cases "v \<in> set vs") (auto simp: count_list_0_iff dest: count_notin)
    have "relax (v # vs) (indeg, q) = (indeg', q @ (v # pushed))"
      using step r True by simp
    moreover have "\<forall>w. obj_get indeg' w = (if w \<in> set (v # vs) then Some (Fin (c w - int (count_list (v # vs) w))) else obj_get indeg w)"
      using g nv by (auto simp: obj_get_set)
    moreover have "distinct (v # pushed)" using d s nv by auto
    moreover have "\<forall>w. w \<in> set (v # pushed) \<longleftrightarrow> w \<in> set (v # vs) \<and> c w = int (count_list (v # vs) w)"
      using s nv True by auto
    ultimately show ?thesis by blast
  next
    case False
    have "relax (v # vs) (indeg, q) = (indeg', q @ pushed)"
      using step r False by simp
    moreover have "\<forall>w. obj_get indeg' w = (if w \<in> set (v # vs) then Some (Fin (c w - int (count_list (v # vs) w))) else obj_get indeg w)"
      using g by (auto simp: obj_get_set)
    moreover have "\<forall>w. w \<in> set pushed \<longleftrightarrow> w \<in> set (v # vs) \<and> c w = int (count_list (v # vs) w)"
    proof
      fix w
      show "w \<in> set pushed \<longleftrightarrow> w \<in> set (v # vs) \<and> c w = int (count_list (v # vs) w)"
      proof (cases "w = v")
        case True
        have "v \<notin> set vs \<Longrightarrow> c v \<noteq> int (count_list vs v) + 1"
          using False by simp
        moreover have "v \<in> set pushed \<longleftrightarrow> v \<in> set vs \<and> c v - 1 = int (count_list vs v)"
          using spec[OF s, of v] by simp
        ultimately show ?thesis unfolding True by auto
      next
        case False
        then show ?thesis using s by simp
      qed
    qed
    ultimately show ?thesis using d by blast
  qed
qed

lemma or_empty_get_set:
  "or_empty (obj_get (obj_set k v ob) k') = (if k' = k then v else or_empty (obj_get ob k'))"
  by (simp add: obj_get_set or_empty_def)

lemma add_deps_graph:
  "or_empty (obj_get (snd (add_deps i ds (indeg, graph))) d)
     = or_empty (obj_get graph d) @ replicate (count_list ds d) i"
proof (induction ds arbitrary: indeg graph)
  case Nil
  then show ?case by simp
next
  case (Cons a ds)
  show ?case
    by (simp add: Cons.IH or_empty_get_set)
qed

lemma add_deps_indeg_other:
  "j \<noteq> i \<Longrightarrow> obj_get (fst (add_deps i ds (indeg, graph))) j = obj_get indeg j"
  by (induction ds arbitrary: indeg graph) (simp_all add: obj_get_set)

lemma add_deps_indeg_self:
  "obj_get indeg i = Some (Fin c) \<Longrightarrow>
   obj_get (fst (add_deps i ds (indeg, graph))) i = Some (Fin (c + int (length ds)))"
  by (induction ds arbitrary: indeg graph c) (simp_all add: obj_get_set)

lemma edges_Cons: "edges (t # ts) = map (Pair (task_id t)) (deps t) @ edges ts"
  by (simp add: edges_def)

lemma filter_snd_Pair: "map fst (filter (\<lambda>e. snd e = d) (map (Pair i) ds)) = replicate (count_list ds d) i"
  by (induction ds) (simp_all add: replicate_append_same)

lemma filter_fst_Pair: "length (filter (\<lambda>e. fst e = j) (map (Pair i) ds)) = (if j = i then length ds else 0)"
  by (induction ds) simp_all

lemma edges_fst_in_ids: "e \<in> set (edges tasks) \<Longrightarrow> fst e \<in> task_id ` set tasks"
  by (auto simp: edges_def)

lemma init_tables_graph:
  "or_empty (obj_get (snd (init_tables tasks (indeg, graph))) d)
     = or_empty (obj_get graph d) @ map fst (filter (\<lambda>e. snd e = d) (edges tasks))"
proof (induction tasks arbitrary: indeg graph)
  case Nil
  then show ?case by (simp add: edges_def)
next
  case (Cons t ts)
  let ?ind1 = "obj_set (task_id t) (to_number (nullish (obj_get indeg (task_id t)) (Some (Fin 0)))) indeg"
  obtain i1 g1 where a: "add_deps (task_id t) (deps t) (?ind1, graph) = (i1, g1)"
    by (cases "add_deps (task_id t) (deps t) (?ind1, graph)")
  have "or_empty (obj_get g1 d) = or_empty (obj_get graph d) @ replicate (count_list (deps t) d) (task_id t)"
    using add_deps_graph[of "task_id t" "deps t" ?ind1 graph d] a by simp
  then show ?case
    by (simp add: a Cons.IH edges_Cons filter_snd_Pair)
qed

lemma init_tables_indeg:
  assumes "\<forall>j\<in>task_id ` set tasks. to_number (nullish (obj_get indeg j) (Some (Fin 0))) = Fin (c j)"
  shows "obj_get (fst (init_tables tasks (indeg, graph))) j
           = (if j \<in> task_id ` set tasks
              then Some (Fin (c j + int (length (filter (\<lambda>e. fst e = j) (edges tasks)))))
              else obj_get indeg j)"
  using assms
proof (induction tasks arbitrary: indeg graph c)
  case Nil
  then show ?case by simp
next
  case (Cons t ts)
  let ?i = "task_id t"
  let ?ind1 = "obj_set ?i (to_number (nullish (obj_get indeg ?i) (Some (Fin 0)))) indeg"
  obtain i2 g2 where a: "add_deps ?i (deps t) (?ind1, graph) = (i2, g2)"
    by (cases "add_deps ?i (deps t) (?ind1, graph)")
  have c0: "to_number (nullish (obj_get indeg ?i) (Some (Fin 0))) = Fin (c ?i)"
    using Cons.prems by simp
  have self: "obj_get i2 ?i = Some (Fin (c ?i + int (length (deps t))))"
    using add_deps_indeg_self[of ?ind1 ?i "c ?i" "deps t" graph] a by (simp add: obj_get_set c0)
  have other: "k \<noteq> ?i \<Longrightarrow> obj_get i2 k = obj_get indeg k" for k
    using add_deps_indeg_other[of k ?i "deps t" ?ind1 graph] a by (simp add: obj_get_set)
  let ?c = "c(?i := c ?i + int (length (deps t)))"
  have pre: "\<forall>k\<in>task_id ` set ts. to_number (nullish (obj_get i2 k) (Some (Fin 0))) = Fin (?c k)"
  proof
    fix k assume k: "k \<in> task_id ` set ts"
    show "to_number (nullish (obj_get i2 k) (Some (Fin 0))) = Fin (?c k)"
    proof (cases "k = ?i")
      case True
      then show ?thesis using self by simp
    next
      case False
      have "k \<in> task_id ` set (t # ts)" using k by simp
      from bspec[OF Cons.prems this] show ?thesis using other[OF False] False by simp
    qed
  qed
  have ih: "obj_get (fst (init_tables ts (i2, g2))) j
           = (if j \<in> task_id ` set ts
              then Some (Fin (?c j + int (length (filter (\<lambda>e. fst e = j) (edges ts)))))
              else obj_get i2 j)"
    by (rule Cons.IH[OF pre])
  have noedge: "j \<notin> task_id ` set ts \<Longrightarrow> filter (\<lambda>e. fst e = j) (edges ts) = []"
    using edges_fst_in_ids[of _ ts] by (auto simp: filter_empty_conv)
  show ?case
  proof (cases "j = ?i")
    case True
    show ?thesis
    proof (cases "j \<in> task_id ` set ts")
      case True
      with \<open>j = ?i\<close> show ?thesis
        using ih by (simp add: a edges_Cons filter_fst_Pair)
    next
      case False
      with \<open>j = ?i\<close> show ?thesis
        using ih self noedge[OF False] by (simp add: a edges_Cons filter_fst_Pair)
    qed
  next
    case False
    then show ?thesis
      using ih other[OF False] by (simp add: a edges_Cons filter_fst_Pair)
  qed
qed

text \<open>
  The loop invariant of Kahn's algorithm: the in-degree of a task counts its
  dependency entries that have not been dequeued yet, and a task is in the queue or
  the output exactly when that count is 0.
\<close>

definition remaining :: "(string \<times> string) list \<Rightarrow> string list \<Rightarrow> string \<Rightarrow> nat" where
  "remaining E order v = length (filter (\<lambda>e. fst e = v \<and> snd e \<notin> set order) E)"

definition preds_before :: "(string \<times> string) list \<Rightarrow> string list \<Rightarrow> bool" where
  "preds_before E order \<longleftrightarrow>
     (\<forall>k<length order. \<forall>e\<in>set E. fst e = order ! k \<longrightarrow> snd e \<in> set (take k order))"

lemma remaining_snoc:
  "u \<notin> set order \<Longrightarrow>
   remaining E order v = remaining E (order @ [u]) v + count_list (map fst (filter (\<lambda>e. snd e = u) E)) v"
  by (induction E) (auto simp: remaining_def)

lemma remaining_0_iff: "remaining E order v = 0 \<longleftrightarrow> (\<forall>e\<in>set E. fst e = v \<longrightarrow> snd e \<in> set order)"
  by (auto simp: remaining_def filter_empty_conv)

lemma preds_before_snoc:
  "preds_before E (order @ [u]) \<longleftrightarrow> preds_before E order \<and> (\<forall>e\<in>set E. fst e = u \<longrightarrow> snd e \<in> set order)"
  unfolding preds_before_def
  by (auto simp: nth_append less_Suc_eq)

definition kahn_inv :: "string set \<Rightarrow> (string \<times> string) list \<Rightarrow> jsnum obj \<Rightarrow> string list \<Rightarrow> string list \<Rightarrow> bool" where
  "kahn_inv ids E indeg q order \<longleftrightarrow>
     distinct (order @ q) \<and> set (order @ q) \<subseteq> ids \<and> fst ` set E \<subseteq> ids \<and>
     (\<forall>v\<in>ids. obj_get indeg v = Some (Fin (int (remaining E order v)))) \<and>
     (\<forall>v\<in>ids. v \<in> set (order @ q) \<longleftrightarrow> remaining E order v = 0) \<and>
     preds_before E order"

lemma kahn_inv_step:
  assumes inv: "kahn_inv ids E indeg (u # q) order"
    and rel: "relax (map fst (filter (\<lambda>e. snd e = u) E)) (indeg, q) = (indeg', q')"
  shows "kahn_inv ids E indeg' q' (order @ [u]) \<and> (\<exists>pushed. q' = q @ pushed)"
proof -
  let ?vs = "map fst (filter (\<lambda>e. snd e = u) E)"
  let ?c = "\<lambda>v. int (remaining E order v)"
  from inv have d: "distinct (order @ u # q)" and sub: "set (order @ u # q) \<subseteq> ids"
    and Eids: "fst ` set E \<subseteq> ids"
    and deg: "\<And>v. v \<in> ids \<Longrightarrow> obj_get indeg v = Some (Fin (?c v))"
    and mem: "\<And>v. v \<in> ids \<Longrightarrow> v \<in> set (order @ u # q) \<longleftrightarrow> remaining E order v = 0"
    and pb: "preds_before E order"
    unfolding kahn_inv_def by blast+
  have u_new: "u \<notin> set order" using d by simp
  have split: "remaining E order v = remaining E (order @ [u]) v + count_list ?vs v" for v
    by (rule remaining_snoc[OF u_new])
  have vs_ids: "set ?vs \<subseteq> ids" using Eids by auto
  have pre: "\<forall>v\<in>set ?vs. obj_get indeg v = Some (Fin (?c v)) \<and> int (count_list ?vs v) \<le> ?c v"
  proof
    fix v assume "v \<in> set ?vs"
    then have "v \<in> ids" using vs_ids by blast
    then show "obj_get indeg v = Some (Fin (?c v)) \<and> int (count_list ?vs v) \<le> ?c v"
      using deg[of v] split[of v] by simp
  qed
  from relax_spec[OF pre, of q] rel obtain pushed where
    q': "q' = q @ pushed"
    and g: "\<And>v. obj_get indeg' v = (if v \<in> set ?vs then Some (Fin (?c v - int (count_list ?vs v))) else obj_get indeg v)"
    and dp: "distinct pushed"
    and sp: "\<And>v. v \<in> set pushed \<longleftrightarrow> v \<in> set ?vs \<and> ?c v = int (count_list ?vs v)"
    by auto
  have pushed_iff: "v \<in> set pushed \<longleftrightarrow> v \<in> set ?vs \<and> remaining E (order @ [u]) v = 0" for v
    using sp[of v] split[of v] by auto
  have pushed_old: "v \<in> set pushed \<Longrightarrow> v \<notin> set (order @ u # q)" for v
  proof
    assume a: "v \<in> set pushed" and b: "v \<in> set (order @ u # q)"
    from a have "v \<in> set ?vs" using pushed_iff by blast
    then have "count_list ?vs v \<noteq> 0" by (simp add: count_list_0_iff)
    then have "remaining E order v \<noteq> 0" using split[of v] by simp
    moreover have "v \<in> ids" using b sub by blast
    ultimately show False using mem[of v] b by simp
  qed
  have 1: "distinct ((order @ [u]) @ q')"
    using d dp pushed_old unfolding q' by auto
  have 2: "set ((order @ [u]) @ q') \<subseteq> ids"
    using sub vs_ids pushed_iff unfolding q' by auto
  have 3: "\<forall>v\<in>ids. obj_get indeg' v = Some (Fin (int (remaining E (order @ [u]) v)))"
  proof
    fix v assume v: "v \<in> ids"
    show "obj_get indeg' v = Some (Fin (int (remaining E (order @ [u]) v)))"
    proof (cases "v \<in> set ?vs")
      case True
      then show ?thesis using g[of v] split[of v] by simp
    next
      case False
      then have "count_list ?vs v = 0" by (simp add: count_list_0_iff)
      then show ?thesis using g[of v] False split[of v] deg[OF v] by simp
    qed
  qed
  have 4: "\<forall>v\<in>ids. v \<in> set ((order @ [u]) @ q') \<longleftrightarrow> remaining E (order @ [u]) v = 0"
  proof
    fix v assume v: "v \<in> ids"
    show "v \<in> set ((order @ [u]) @ q') \<longleftrightarrow> remaining E (order @ [u]) v = 0"
    proof
      assume "v \<in> set ((order @ [u]) @ q')"
      then consider "v \<in> set (order @ u # q)" | "v \<in> set pushed" unfolding q' by auto
      then show "remaining E (order @ [u]) v = 0"
      proof cases
        case 1
        then have "remaining E order v = 0" using mem[OF v] by blast
        then show ?thesis using split[of v] by simp
      next
        case 2
        then show ?thesis using pushed_iff by blast
      qed
    next
      assume z: "remaining E (order @ [u]) v = 0"
      show "v \<in> set ((order @ [u]) @ q')"
      proof (cases "v \<in> set ?vs")
        case True
        then have "v \<in> set pushed" using z pushed_iff by blast
        then show ?thesis unfolding q' by simp
      next
        case False
        then have "count_list ?vs v = 0" by (simp add: count_list_0_iff)
        then have "remaining E order v = 0" using z split[of v] by simp
        then have "v \<in> set (order @ u # q)" using mem[OF v] by blast
        then show ?thesis unfolding q' by auto
      qed
    qed
  qed
  have "u \<in> ids" using sub by simp
  then have "remaining E order u = 0" using mem[of u] by simp
  then have 5: "preds_before E (order @ [u])"
    using pb by (simp add: preds_before_snoc remaining_0_iff)
  show ?thesis
    unfolding kahn_inv_def using 1 2 3 4 5 Eids q' by blast
qed

lemma kahn_loop_spec:
  "kahn_inv ids E indeg q order \<Longrightarrow>
   (\<And>u. or_empty (obj_get graph u) = map fst (filter (\<lambda>e. snd e = u) E)) \<Longrightarrow>
   \<exists>indeg' rest. kahn_inv ids E indeg' [] (kahn_loop graph indeg q order)
      \<and> kahn_loop graph indeg q order = order @ q @ rest"
proof (induction graph indeg q order rule: kahn_loop.induct)
  case (1 graph indeg order)
  then show ?case by auto
next
  case (2 graph indeg u q order)
  obtain indeg' q' where rel: "relax (or_empty (obj_get graph u)) (indeg, q) = (indeg', q')"
    by (cases "relax (or_empty (obj_get graph u)) (indeg, q)")
  have rel': "relax (map fst (filter (\<lambda>e. snd e = u) E)) (indeg, q) = (indeg', q')"
    using rel "2.prems"(2)[of u] by simp
  from kahn_inv_step[OF "2.prems"(1) rel'] obtain pushed where
    inv': "kahn_inv ids E indeg' q' (order @ [u])" and q': "q' = q @ pushed"
    by blast
  from "2.IH"[OF rel[symmetric] inv' "2.prems"(2)] obtain indeg'' rest where
    a: "kahn_inv ids E indeg'' [] (kahn_loop graph indeg' q' (order @ [u]))"
    and b: "kahn_loop graph indeg' q' (order @ [u]) = (order @ [u]) @ q' @ rest"
    by blast
  have "kahn_loop graph indeg (u # q) order = kahn_loop graph indeg' q' (order @ [u])"
    using rel by simp
  then show ?case using a b q' by auto
qed

lemma edges_of_task:
  "distinct (map task_id tasks) \<Longrightarrow> t \<in> set tasks \<Longrightarrow>
   filter (\<lambda>e. fst e = task_id t) (edges tasks) = map (Pair (task_id t)) (deps t)"
proof (induction tasks)
  case Nil
  then show ?case by simp
next
  case (Cons a tasks)
  have other: "task_id t \<notin> task_id ` set ts \<Longrightarrow> filter (\<lambda>e. fst e = task_id t) (edges ts) = []" for ts
    using edges_fst_in_ids[of _ ts] by (auto simp: filter_empty_conv)
  show ?case
  proof (cases "t = a")
    case True
    then show ?thesis using Cons.prems other[of tasks] by (simp add: edges_Cons filter_id_conv)
  next
    case False
    then have "t \<in> set tasks" "task_id a \<noteq> task_id t" using Cons.prems by auto
    then show ?thesis using Cons by (simp add: edges_Cons filter_empty_conv)
  qed
qed

lemma remaining_task:
  "distinct (map task_id tasks) \<Longrightarrow> t \<in> set tasks \<Longrightarrow>
   remaining (edges tasks) order (task_id t) = 0 \<longleftrightarrow> set (deps t) \<subseteq> set order"
proof -
  assume a: "distinct (map task_id tasks)" "t \<in> set tasks"
  have "set (filter (\<lambda>e. fst e = task_id t) (edges tasks)) = Pair (task_id t) ` set (deps t)"
    using edges_of_task[OF a] by simp
  then have m: "e \<in> set (edges tasks) \<and> fst e = task_id t \<longleftrightarrow> e \<in> Pair (task_id t) ` set (deps t)" for e
    by (metis (mono_tags, lifting) mem_Collect_eq set_filter)
  have "(\<forall>e\<in>set (edges tasks). fst e = task_id t \<longrightarrow> snd e \<in> set order) \<longleftrightarrow> set (deps t) \<subseteq> set order"
  proof
    assume h: "\<forall>e\<in>set (edges tasks). fst e = task_id t \<longrightarrow> snd e \<in> set order"
    show "set (deps t) \<subseteq> set order"
    proof
      fix d assume "d \<in> set (deps t)"
      then have "(task_id t, d) \<in> set (edges tasks) \<and> fst (task_id t, d) = task_id t"
        using m[of "(task_id t, d)"] by blast
      then show "d \<in> set order" using h by fastforce
    qed
  next
    assume h: "set (deps t) \<subseteq> set order"
    show "\<forall>e\<in>set (edges tasks). fst e = task_id t \<longrightarrow> snd e \<in> set order"
    proof (intro ballI impI)
      fix e assume "e \<in> set (edges tasks)" "fst e = task_id t"
      then have "e \<in> Pair (task_id t) ` set (deps t)" using m[of e] by blast
      then show "snd e \<in> set order" using h by auto
    qed
  qed
  then show ?thesis by (simp add: remaining_0_iff)
qed

text \<open>What topoSort returns on a list of tasks with distinct ids.\<close>

lemma topoSort_inv:
  assumes dist: "distinct (map task_id tasks)"
  shows "\<exists>indeg rest. kahn_inv (task_id ` set tasks) (edges tasks) indeg [] (topoSort tasks)
          \<and> topoSort tasks = map task_id (filter (\<lambda>t. deps t = []) tasks) @ rest"
proof -
  let ?E = "edges tasks" and ?ids = "task_id ` set tasks"
  obtain indeg graph where it: "init_tables tasks ([], []) = (indeg, graph)"
    by (cases "init_tables tasks ([], [])")
  have g: "or_empty (obj_get graph u) = map fst (filter (\<lambda>e. snd e = u) ?E)" for u
    using init_tables_graph[of tasks "[]" "[]" u] it by (simp add: obj_get_def or_empty_def)
  have "\<forall>j\<in>?ids. to_number (nullish (obj_get ([]::jsnum obj) j) (Some (Fin 0))) = Fin ((\<lambda>_. 0) j)"
    by (simp add: obj_get_def)
  from init_tables_indeg[OF this, of "[]"] it
  have deg: "obj_get indeg j = (if j \<in> ?ids then Some (Fin (int (length (filter (\<lambda>e. fst e = j) ?E)))) else None)" for j
    by (simp add: obj_get_def)
  have rem0: "remaining ?E [] v = length (filter (\<lambda>e. fst e = v) ?E)" for v
    by (simp add: remaining_def)
  let ?q = "map task_id (filter (\<lambda>t. to_number (nullish (obj_get indeg (task_id t)) (Some (Fin 0))) = Fin 0) tasks)"
  have sel: "t \<in> set tasks \<Longrightarrow> to_number (nullish (obj_get indeg (task_id t)) (Some (Fin 0))) = Fin 0 \<longleftrightarrow> deps t = []" for t
    using deg[of "task_id t"] edges_of_task[OF dist, of t] by simp
  have qeq: "?q = map task_id (filter (\<lambda>t. deps t = []) tasks)"
    using sel by (metis (mono_tags, lifting) filter_cong)
  have inv0: "kahn_inv ?ids ?E indeg ?q []"
    unfolding kahn_inv_def
  proof (intro conjI ballI)
    show "distinct ([] @ ?q)" using dist by (simp add: distinct_map_filter)
    show "set ([] @ ?q) \<subseteq> ?ids" by auto
    show "fst ` set ?E \<subseteq> ?ids" using edges_fst_in_ids by blast
    show "obj_get indeg v = Some (Fin (int (remaining ?E [] v)))" if "v \<in> ?ids" for v
      using that deg[of v] rem0 by simp
    show "v \<in> set ([] @ ?q) \<longleftrightarrow> remaining ?E [] v = 0" if "v \<in> ?ids" for v
    proof -
      from that obtain t where t: "t \<in> set tasks" "v = task_id t" by blast
      have "v \<in> set ?q \<longleftrightarrow> deps t = []"
      proof
        assume "v \<in> set ?q"
        then obtain t' where t': "t' \<in> set tasks" "task_id t' = v" "deps t' = []"
          unfolding qeq by auto
        then have "t' = t" using t dist by (metis distinct_map inj_on_def)
        then show "deps t = []" using t' by simp
      next
        assume "deps t = []"
        then show "v \<in> set ?q" unfolding qeq using t by auto
      qed
      moreover have "remaining ?E [] v = 0 \<longleftrightarrow> deps t = []"
        using remaining_task[OF dist t(1), of "[]"] t(2) by simp
      ultimately show ?thesis by simp
    qed
    show "preds_before ?E []" by (simp add: preds_before_def)
  qed
  from kahn_loop_spec[OF inv0 g] obtain indeg' rest where
    "kahn_inv ?ids ?E indeg' [] (kahn_loop graph indeg ?q [])"
    "kahn_loop graph indeg ?q [] = [] @ ?q @ rest"
    by blast
  moreover have "topoSort tasks = kahn_loop graph indeg ?q []"
    by (simp add: topoSort_def it)
  ultimately show ?thesis using qeq by auto
qed

text \<open>
  A well-formed task list: unique ids (the data model's invariant on a project),
  every predecessor id is the id of a task, and the predecessor relation is acyclic.
\<close>

definition dep_rel :: "Task list \<Rightarrow> (string \<times> string) set" where
  "dep_rel tasks = {(d, task_id t) | d t. t \<in> set tasks \<and> d \<in> set (deps t)}"

definition well_formed :: "Task list \<Rightarrow> bool" where
  "well_formed tasks \<longleftrightarrow>
     distinct (map task_id tasks) \<and>
     (\<forall>t\<in>set tasks. set (deps t) \<subseteq> task_id ` set tasks) \<and>
     acyclic (dep_rel tasks)"

lemma topoSort_distinct: "distinct (map task_id tasks) \<Longrightarrow> distinct (topoSort tasks)"
  using topoSort_inv[of tasks] by (auto simp: kahn_inv_def)

lemma topoSort_subset: "distinct (map task_id tasks) \<Longrightarrow> set (topoSort tasks) \<subseteq> task_id ` set tasks"
  using topoSort_inv[of tasks] by (auto simp: kahn_inv_def)

lemma topoSort_mem:
  assumes "distinct (map task_id tasks)" "t \<in> set tasks"
  shows "task_id t \<in> set (topoSort tasks) \<longleftrightarrow> set (deps t) \<subseteq> set (topoSort tasks)"
proof -
  from topoSort_inv[OF assms(1)] obtain indeg where
    "kahn_inv (task_id ` set tasks) (edges tasks) indeg [] (topoSort tasks)" by blast
  then have "\<forall>v\<in>task_id ` set tasks. v \<in> set (topoSort tasks) \<longleftrightarrow> remaining (edges tasks) (topoSort tasks) v = 0"
    by (simp add: kahn_inv_def)
  then have "task_id t \<in> set (topoSort tasks) \<longleftrightarrow> remaining (edges tasks) (topoSort tasks) (task_id t) = 0"
    using assms(2) by blast
  then show ?thesis using remaining_task[OF assms] by simp
qed

lemma topoSort_preds_before:
  assumes "distinct (map task_id tasks)" "t \<in> set tasks"
    and "k < length (topoSort tasks)" "topoSort tasks ! k = task_id t"
  shows "set (deps t) \<subseteq> set (take k (topoSort tasks))"
proof
  fix d assume d: "d \<in> set (deps t)"
  from topoSort_inv[OF assms(1)] obtain indeg where
    "kahn_inv (task_id ` set tasks) (edges tasks) indeg [] (topoSort tasks)" by blast
  then have pb: "preds_before (edges tasks) (topoSort tasks)"
    by (simp add: kahn_inv_def)
  have "(task_id t, d) \<in> set (edges tasks)"
    using assms(2) d by (auto simp: edges_def)
  then show "d \<in> set (take k (topoSort tasks))"
    using pb assms(3,4) unfolding preds_before_def by fastforce
qed





text \<open>Without any assumption on the task list, the order holds task ids only.\<close>

lemma relax_q_subset: "set (snd (relax vs (indeg, q))) \<subseteq> set q \<union> set vs"
proof (induction vs arbitrary: indeg q)
  case Nil
  then show ?case by simp
next
  case (Cons v vs)
  let ?i = "obj_set v (js_sub (to_number (obj_get indeg v)) (Fin 1)) indeg"
  show ?case
  proof (cases "obj_get ?i v = Some (Fin 0)")
    case True
    then have "relax (v # vs) (indeg, q) = relax vs (?i, q @ [v])" by (simp add: Let_def)
    then show ?thesis using Cons.IH[of ?i "q @ [v]"] by auto
  next
    case False
    then have "relax (v # vs) (indeg, q) = relax vs (?i, q)" by (simp add: Let_def)
    then show ?thesis using Cons.IH[of ?i q] by auto
  qed
qed

lemma kahn_loop_subset:
  "(\<And>u. set (or_empty (obj_get graph u)) \<subseteq> S) \<Longrightarrow> set q \<subseteq> S \<Longrightarrow> set order \<subseteq> S \<Longrightarrow>
   set (kahn_loop graph indeg q order) \<subseteq> S"
proof (induction graph indeg q order rule: kahn_loop.induct)
  case (1 graph indeg order)
  then show ?case by simp
next
  case (2 graph indeg u q order)
  obtain indeg' q' where rel: "relax (or_empty (obj_get graph u)) (indeg, q) = (indeg', q')"
    by (cases "relax (or_empty (obj_get graph u)) (indeg, q)")
  have "set q' \<subseteq> set q \<union> set (or_empty (obj_get graph u))"
    using relax_q_subset[of "or_empty (obj_get graph u)" indeg q] rel by simp
  then have q': "set q' \<subseteq> S" using "2.prems"(1)[of u] "2.prems"(2) by auto
  have o': "set (order @ [u]) \<subseteq> S" using "2.prems"(2,3) by simp
  have "set (kahn_loop graph indeg' q' (order @ [u])) \<subseteq> S"
    by (rule "2.IH"[OF rel[symmetric] "2.prems"(1) q' o'])
  then show ?case using rel by simp
qed

lemma topoSort_ids: "set (topoSort tasks) \<subseteq> task_id ` set tasks"
proof -
  obtain indeg graph where it: "init_tables tasks ([], []) = (indeg, graph)"
    by (cases "init_tables tasks ([], [])")
  have g: "set (or_empty (obj_get graph u)) \<subseteq> task_id ` set tasks" for u
    using init_tables_graph[of tasks "[]" "[]" u] it edges_fst_in_ids[of _ tasks]
    by (auto simp: obj_get_def or_empty_def)
  show ?thesis
    unfolding topoSort_def it
    by (simp, rule kahn_loop_subset[OF g]) auto
qed

section \<open>Structure of a run of the engine\<close>

lemma fromEntries_cases:
  "(\<exists>t\<in>set tasks. task_id t = i \<and> obj_get (fromEntries tasks byId) i = Some t) \<or>
   (i \<notin> task_id ` set tasks \<and> obj_get (fromEntries tasks byId) i = obj_get byId i)"
proof (induction tasks arbitrary: byId)
  case Nil
  then show ?case by simp
next
  case (Cons a tasks)
  let ?b = "obj_set (task_id a) a byId"
  from Cons.IH[of ?b] show ?case
  proof
    assume "\<exists>t\<in>set tasks. task_id t = i \<and> obj_get (fromEntries tasks ?b) i = Some t"
    then show ?thesis by auto
  next
    assume h: "i \<notin> task_id ` set tasks \<and> obj_get (fromEntries tasks ?b) i = obj_get ?b i"
    show ?thesis
    proof (cases "i = task_id a")
      case True
      then show ?thesis using h by (simp add: obj_get_set)
    next
      case False
      then show ?thesis using h by (simp add: obj_get_set)
    qed
  qed
qed

lemma byId_defined:
  "i \<in> task_id ` set tasks \<Longrightarrow> \<exists>t\<in>set tasks. task_id t = i \<and> obj_get (fromEntries tasks byId) i = Some t"
  using fromEntries_cases[of tasks i byId] by blast


lemma forward_pass_defined:
  "\<forall>i\<in>set order. obj_get byId i \<noteq> None \<Longrightarrow>
   \<exists>es' ef'. forward_pass dflt byId ms order (es, ef) = Inr (es', ef')"
  by (induction order arbitrary: es ef) (auto simp: Let_def)

lemma forward_pass_other:
  "forward_pass dflt byId ms order (es, ef) = Inr (es', ef') \<Longrightarrow> i \<notin> set order \<Longrightarrow>
   obj_get es' i = obj_get es i \<and> obj_get ef' i = obj_get ef i"
  by (induction order arbitrary: es ef) (auto simp: Let_def obj_get_set split: option.splits)

lemma backward_pass_defined:
  "\<forall>i\<in>set order. obj_get byId i \<noteq> None \<Longrightarrow>
   \<exists>ls' lf'. backward_pass byId succs pd order (ls, lf) = Inr (ls', lf')"
  by (induction order arbitrary: ls lf) (auto simp: Let_def)

lemma backward_pass_other:
  "backward_pass byId succs pd order (ls, lf) = Inr (ls', lf') \<Longrightarrow> i \<notin> set order \<Longrightarrow>
   obj_get ls' i = obj_get ls i \<and> obj_get lf' i = obj_get lf i"
  by (induction order arbitrary: ls lf) (auto simp: Let_def obj_get_set split: option.splits)

text \<open>The slack entry written for a task id: \<^verbatim>\<open>LS[t.id] - ES[t.id]\<close>.\<close>

definition slack_of :: "jsnum obj \<Rightarrow> jsnum obj \<Rightarrow> string \<Rightarrow> jsnum" where
  "slack_of es ls i = js_sub (to_number (obj_get ls i)) (to_number (obj_get es i))"

lemma slack_pass_spec:
  "slack_pass es ls tasks (sl, crit) = (sl', crit') \<Longrightarrow>
   (\<forall>i. obj_get sl' i = (if i \<in> task_id ` set tasks then Some (slack_of es ls i) else obj_get sl i)) \<and>
   crit' = crit \<union> {i \<in> task_id ` set tasks. below_tolerance (Math_abs (slack_of es ls i))}"
proof (induction tasks arbitrary: sl crit)
  case Nil
  then show ?case by simp
next
  case (Cons t ts)
  let ?sl = "obj_set (task_id t) (slack_of es ls (task_id t)) sl"
  let ?crit = "if below_tolerance (Math_abs (slack_of es ls (task_id t))) then insert (task_id t) crit else crit"
  have "slack_pass es ls ts (?sl, ?crit) = (sl', crit')"
    using Cons.prems by (simp add: Let_def slack_of_def obj_get_set)
  from Cons.IH[OF this]
  have g: "\<And>i. obj_get sl' i = (if i \<in> task_id ` set ts then Some (slack_of es ls i) else obj_get ?sl i)"
    and c: "crit' = ?crit \<union> {i \<in> task_id ` set ts. below_tolerance (Math_abs (slack_of es ls i))}"
    by blast+
  have "obj_get sl' i = (if i \<in> task_id ` set (t # ts) then Some (slack_of es ls i) else obj_get sl i)" for i
    unfolding g[of i] by (simp add: obj_get_set)
  moreover have "crit' = crit \<union> {i \<in> task_id ` set (t # ts). below_tolerance (Math_abs (slack_of es ls i))}"
    unfolding c by auto
  ultimately show ?case by blast
qed

lemma cpm_unfold:
  "\<exists>es ef ls lf sl crit.
     forward_pass dflt (fromEntries tasks []) ms (topoSort tasks) ([], []) = Inr (es, ef) \<and>
     backward_pass (fromEntries tasks []) (build_succs tasks [])
        (Math_max (Object_values ef @ (if wz then [Fin 0] else []))) (rev (topoSort tasks)) ([], []) = Inr (ls, lf) \<and>
     slack_pass es ls tasks ([], {}) = (sl, crit) \<and>
     cpm dflt wz tasks ms = Inr \<lparr>ES = es, EF = ef, LS = ls, LF = lf, slack = sl, critical = crit,
        projectDuration = Math_max (Object_values ef @ (if wz then [Fin 0] else []))\<rparr>"
proof -
  have d: "\<forall>i\<in>set (topoSort tasks). obj_get (fromEntries tasks []) i \<noteq> None"
  proof
    fix i assume "i \<in> set (topoSort tasks)"
    then have "i \<in> task_id ` set tasks" using topoSort_ids[of tasks] by blast
    from byId_defined[OF this, of "[]"] show "obj_get (fromEntries tasks []) i \<noteq> None" by auto
  qed
  then have d': "\<forall>i\<in>set (rev (topoSort tasks)). obj_get (fromEntries tasks []) i \<noteq> None" by simp
  from forward_pass_defined[OF d] obtain es ef where
    f: "forward_pass dflt (fromEntries tasks []) ms (topoSort tasks) ([], []) = Inr (es, ef)" by blast
  let ?pd = "Math_max (Object_values ef @ (if wz then [Fin 0] else []))"
  from backward_pass_defined[OF d'] obtain ls lf where
    b: "backward_pass (fromEntries tasks []) (build_succs tasks []) ?pd (rev (topoSort tasks)) ([], []) = Inr (ls, lf)"
    by blast
  obtain sl crit where s: "slack_pass es ls tasks ([], {}) = (sl, crit)"
    by (cases "slack_pass es ls tasks ([], {})")
  show ?thesis
    using f b s by (simp add: cpm_def Let_def)
qed

lemma cpm_omitted:
  assumes "t \<in> set tasks" "task_id t \<notin> set (topoSort tasks)"
  shows "\<exists>r. cpm dflt wz tasks ms = Inr r \<and>
           obj_get (ES r) (task_id t) = None \<and> obj_get (EF r) (task_id t) = None \<and>
           obj_get (LS r) (task_id t) = None \<and> obj_get (LF r) (task_id t) = None \<and>
           obj_get (slack r) (task_id t) = Some NaN \<and> task_id t \<notin> critical r"
proof -
  from cpm_unfold[of dflt tasks ms wz] obtain es ef ls lf sl crit where
    f: "forward_pass dflt (fromEntries tasks []) ms (topoSort tasks) ([], []) = Inr (es, ef)"
    and b: "backward_pass (fromEntries tasks []) (build_succs tasks [])
        (Math_max (Object_values ef @ (if wz then [Fin 0] else []))) (rev (topoSort tasks)) ([], []) = Inr (ls, lf)"
    and s: "slack_pass es ls tasks ([], {}) = (sl, crit)"
    and c: "cpm dflt wz tasks ms = Inr \<lparr>ES = es, EF = ef, LS = ls, LF = lf, slack = sl, critical = crit,
        projectDuration = Math_max (Object_values ef @ (if wz then [Fin 0] else []))\<rparr>"
    by blast
  have e: "obj_get es (task_id t) = None" "obj_get ef (task_id t) = None"
    using forward_pass_other[OF f assms(2)] by (simp_all add: obj_get_def)
  have "task_id t \<notin> set (rev (topoSort tasks))" using assms(2) by simp
  from backward_pass_other[OF b this]
  have l: "obj_get ls (task_id t) = None" "obj_get lf (task_id t) = None"
    by (simp_all add: obj_get_def)
  have sl: "slack_of es ls (task_id t) = NaN"
    by (simp add: slack_of_def e l js_sub_def)
  from slack_pass_spec[OF s] assms(1)
  have "obj_get sl (task_id t) = Some NaN" "task_id t \<notin> crit"
    by (auto simp: sl)
  then show ?thesis using c e l by simp
qed

section \<open>The passes as recurrences\<close>


























section \<open>The schedule in integers\<close>





text \<open>The integer behind a value, and the override of a task (0 when there is none).\<close>

fun fin_of :: "jsval \<Rightarrow> int" where
  "fin_of (Some (Fin a)) = a"
| "fin_of v = 0"

definition override :: "jsnum obj \<Rightarrow> string \<Rightarrow> int" where
  "override minStart i = fin_of (obj_get minStart i)"

text \<open>A \<open>minStart\<close> map whose values are non-negative integers.\<close>

definition nonneg_map :: "jsnum obj \<Rightarrow> bool" where
  "nonneg_map minStart \<longleftrightarrow> (\<forall>i x. obj_get minStart i = Some x \<longrightarrow> (\<exists>m. x = Fin m \<and> 0 \<le> m))"



















section \<open>Properties of the propagation\<close>

text \<open>The successors over which \<^verbatim>\<open>propagate(u)\<close> loops.\<close>

definition succs_of :: "Task list \<Rightarrow> string \<Rightarrow> string list" where
  "succs_of tasks u = map task_id (filter (\<lambda>t. u \<in> set (deps t)) tasks)"

lemma propagate_Suc:
  "propagate (Suc n) dflt tasks es u st = propagate_succs n dflt tasks es (succs_of tasks u) (fst st, snd st @ [u])"
  by (simp add: succs_of_def)

lemma succs_err:
  "raise_target dflt tasks es (fst st) v = Inl e \<Longrightarrow>
   propagate_succs n dflt tasks es (v # vs) st = Some (Inl e)"
  by simp

lemma succs_skip:
  "raise_target dflt tasks es (fst st) v = Inr None \<Longrightarrow>
   propagate_succs n dflt tasks es (v # vs) st = propagate_succs n dflt tasks es vs st"
  by simp

lemma succs_raise:
  "raise_target dflt tasks es (fst st) v = Inr (Some x) \<Longrightarrow>
   propagate_succs n dflt tasks es (v # vs) st =
     (case propagate n dflt tasks es v (obj_set v x (fst st), snd st) of
        None \<Rightarrow> None
      | Some (Inl e) \<Rightarrow> Some (Inl e)
      | Some (Inr st') \<Rightarrow> propagate_succs n dflt tasks es vs st')"
  by (simp split: option.splits sum.splits)

text \<open>More fuel does not change a result.\<close>

lemma fuel_mono:
  "(propagate n dflt tasks es u st = Some r \<longrightarrow> propagate (n + k) dflt tasks es u st = Some r) \<and>
   (propagate_succs n dflt tasks es vs st = Some r \<longrightarrow> propagate_succs (n + k) dflt tasks es vs st = Some r)"
proof (induction n arbitrary: u vs st r)
  case 0
  have "propagate_succs 0 dflt tasks es vs st = Some r \<longrightarrow> propagate_succs k dflt tasks es vs st = Some r"
    for vs st r
  proof (induction vs arbitrary: st)
    case Nil
    then show ?case by simp
  next
    case (Cons v vs)
    show ?case
    proof (cases "raise_target dflt tasks es (fst st) v")
      case (Inl e)
      then show ?thesis by (simp add: succs_err del: propagate.simps propagate_succs.simps)
    next
      case (Inr opt)
      show ?thesis
      proof (cases opt)
        case None
        then show ?thesis using Inr Cons.IH by (simp add: succs_skip del: propagate.simps propagate_succs.simps)
      next
        case (Some x)
        then show ?thesis using Inr by (simp add: succs_raise del: propagate_succs.simps)
      qed
    qed
  qed
  then show ?case by simp
next
  case (Suc n)
  have p: "propagate (Suc n) dflt tasks es u st = Some r \<longrightarrow> propagate (Suc n + k) dflt tasks es u st = Some r"
    for u st r
    using Suc.IH by simp
  have "propagate_succs (Suc n) dflt tasks es vs st = Some r \<longrightarrow>
        propagate_succs (Suc n + k) dflt tasks es vs st = Some r" for vs st r
  proof (induction vs arbitrary: st)
    case Nil
    then show ?case by simp
  next
    case (Cons v vs)
    show ?case
    proof (cases "raise_target dflt tasks es (fst st) v")
      case (Inl e)
      then show ?thesis by (simp add: succs_err del: propagate.simps propagate_succs.simps)
    next
      case (Inr opt)
      show ?thesis
      proof (cases opt)
        case None
        then show ?thesis using Inr Cons.IH by (simp add: succs_skip del: propagate.simps propagate_succs.simps)
      next
        case (Some x)
        let ?st1 = "(obj_set v x (fst st), snd st)"
        have rt: "raise_target dflt tasks es (fst st) v = Inr (Some x)" using Inr Some by simp
        show ?thesis
        proof
          assume a: "propagate_succs (Suc n) dflt tasks es (v # vs) st = Some r"
          then obtain r1 where r1: "propagate (Suc n) dflt tasks es v ?st1 = Some r1"
            unfolding succs_raise[OF rt]
            by (cases "propagate (Suc n) dflt tasks es v ?st1") (simp_all del: propagate.simps)
          then have r1': "propagate (Suc n + k) dflt tasks es v ?st1 = Some r1" using p by blast
          show "propagate_succs (Suc n + k) dflt tasks es (v # vs) st = Some r"
          proof (cases r1)
            case (Inl e)
            then have "r = Inl e" using a unfolding succs_raise[OF rt] r1 by simp
            then show ?thesis unfolding succs_raise[OF rt] r1' Inl by simp
          next
            case (Inr st')
            then have "propagate_succs (Suc n) dflt tasks es vs st' = Some r"
              using a unfolding succs_raise[OF rt] r1 by simp
            then have "propagate_succs (Suc n + k) dflt tasks es vs st' = Some r"
              using Cons.IH by blast
            then show ?thesis unfolding succs_raise[OF rt] r1' Inr by simp
          qed
        qed
      qed
    qed
  qed
  then show ?case using p by blast
qed

text \<open>
  Termination from a rank: if every raise leads from \<open>u\<close> to a successor of higher
  rank below \<open>N\<close>, then depth \<open>N - rk u\<close> is never exceeded.
\<close>

lemma propagate_terminates_rank:
  fixes rk :: "string \<Rightarrow> nat"
  assumes raise: "\<And>u v m x. v \<in> set (succs_of tasks u) \<Longrightarrow>
                    raise_target dflt tasks es m v = Inr (Some x) \<Longrightarrow> rk u < rk v \<and> rk v < N"
  shows "N - rk u \<le> n \<Longrightarrow> \<exists>res. propagate (Suc n) dflt tasks es u st = Some res"
proof (induction n arbitrary: u st)
  case 0
  have "\<exists>res. propagate_succs 0 dflt tasks es vs st = Some res"
    if "set vs \<subseteq> set (succs_of tasks u)" for vs st
    using that
  proof (induction vs arbitrary: st)
    case Nil
    then show ?case by simp
  next
    case (Cons v vs)
    show ?case
    proof (cases "raise_target dflt tasks es (fst st) v")
      case (Inl e)
      then show ?thesis by (simp add: succs_err del: propagate_succs.simps)
    next
      case (Inr opt)
      show ?thesis
      proof (cases opt)
        case None
        then show ?thesis using Inr Cons by (simp add: succs_skip del: propagate_succs.simps)
      next
        case (Some x)
        then have "rk u < N" using raise[of v u "fst st" x] Inr Cons.prems by auto
        then show ?thesis using "0.prems" by simp
      qed
    qed
  qed
  then show ?case unfolding propagate_Suc by blast
next
  case (Suc n)
  have "\<exists>res. propagate_succs (Suc n) dflt tasks es vs st = Some res"
    if "set vs \<subseteq> set (succs_of tasks u)" for vs st
    using that
  proof (induction vs arbitrary: st)
    case Nil
    then show ?case by simp
  next
    case (Cons v vs)
    show ?case
    proof (cases "raise_target dflt tasks es (fst st) v")
      case (Inl e)
      then show ?thesis by (simp add: succs_err del: propagate_succs.simps)
    next
      case (Inr opt)
      show ?thesis
      proof (cases opt)
        case None
        then show ?thesis using Inr Cons by (simp add: succs_skip del: propagate_succs.simps)
      next
        case (Some x)
        have rt: "raise_target dflt tasks es (fst st) v = Inr (Some x)" using Inr Some by simp
        have "rk u < rk v \<and> rk v < N" using raise[OF _ rt, of u] Cons.prems by simp
        then have "N - rk v \<le> n" using Suc.prems by linarith
        from Suc.IH[OF this] obtain r1 where
          r1: "propagate (Suc n) dflt tasks es v (obj_set v x (fst st), snd st) = Some r1" by blast
        show ?thesis
        proof (cases r1)
          case (Inl e)
          then show ?thesis unfolding succs_raise[OF rt] r1 by simp
        next
          case (Inr st')
          then show ?thesis unfolding succs_raise[OF rt] r1 using Cons by simp
        qed
      qed
    qed
  qed
  then show ?case unfolding propagate_Suc by blast
qed

text \<open>The position of an id in a list (its length for an id that does not occur).\<close>

definition pos_in :: "string list \<Rightarrow> string \<Rightarrow> nat" where
  "pos_in xs i = length (takeWhile (\<lambda>x. x \<noteq> i) xs)"

lemma pos_in_nth: "distinct xs \<Longrightarrow> k < length xs \<Longrightarrow> pos_in xs (xs ! k) = k"
proof -
  assume d: "distinct xs" and k: "k < length xs"
  have "\<And>j. j < k \<Longrightarrow> xs ! j \<noteq> xs ! k"
    using d k by (simp add: nth_eq_iff_index_eq)
  then have "k \<le> pos_in xs (xs ! k)"
    unfolding pos_in_def using k by (intro length_takeWhile_less_P_nth) auto
  moreover have "\<not> k < pos_in xs (xs ! k)"
  proof
    assume "k < pos_in xs (xs ! k)"
    then have "takeWhile (\<lambda>x. x \<noteq> xs ! k) xs ! k = xs ! k" "k < length (takeWhile (\<lambda>x. x \<noteq> xs ! k) xs)"
      unfolding pos_in_def by (simp_all add: takeWhile_nth)
    then have "xs ! k \<in> set (takeWhile (\<lambda>x. x \<noteq> xs ! k) xs)"
      by (metis nth_mem)
    then show False by (auto dest: set_takeWhileD)
  qed
  ultimately show ?thesis by simp
qed

lemma max_from_NaN: "NaN \<in> set xs \<Longrightarrow> max_from h xs = NaN"
  by (induction xs arbitrary: h) auto

lemma js_gt_NaN: "\<not> js_gt NaN c"
  by (cases c) (simp_all add: js_gt_def)

lemma conservative_EFs_NaN:
  "conservative_EFs dflt tasks es m ps = Inr efs \<Longrightarrow> p \<in> set ps \<Longrightarrow> obj_get es p = None \<Longrightarrow>
   NaN \<in> set efs"
proof (induction ps arbitrary: efs)
  case Nil
  then show ?case by simp
next
  case (Cons a ps)
  from Cons.prems(1) obtain tp efs' where tp: "find_task tasks a = Some tp"
    and r: "conservative_EFs dflt tasks es m ps = Inr efs'"
    and e: "efs = js_add (Math_max [to_number (dflt (obj_get m a) (obj_get es a)), to_number (obj_get es a)])
                    (Fin (duration tp)) # efs'"
    by (auto simp: Let_def split: option.splits sum.splits)
  show ?case
  proof (cases "p = a")
    case True
    then have "Math_max [to_number (dflt (obj_get m a) (obj_get es a)), to_number (obj_get es a)] = NaN"
      using Cons.prems(3) by (simp add: Math_max_def max_from_NaN)
    then show ?thesis unfolding e by simp
  next
    case False
    then show ?thesis using Cons.IH[OF r] Cons.prems(2,3) unfolding e by simp
  qed
qed

text \<open>A successor is raised only if all of its predecessors have an ES entry.\<close>

lemma raise_needs_ES:
  assumes "raise_target dflt tasks es m v = Inr (Some x)"
  shows "\<exists>tv. find_task tasks v = Some tv \<and> (\<forall>p\<in>set (deps tv). obj_get es p \<noteq> None)"
proof -
  from assms obtain tv efs where tv: "find_task tasks v = Some tv"
    and c: "conservative_EFs dflt tasks es m (deps tv) = Inr efs"
    and g: "js_gt (Math_max efs) (to_number (dflt (obj_get m v) (obj_get es v)))"
    by (auto simp: raise_target_def Let_def split: option.splits sum.splits if_splits)
  have "obj_get es p \<noteq> None" if "p \<in> set (deps tv)" for p
  proof
    assume "obj_get es p = None"
    from conservative_EFs_NaN[OF c that this] have "Math_max efs = NaN"
      by (simp add: Math_max_def max_from_NaN)
    then show False using g js_gt_NaN by simp
  qed
  then show ?thesis using tv by blast
qed

lemma find_task_Some: "find_task tasks v = Some tv \<Longrightarrow> tv \<in> set tasks \<and> task_id tv = v"
  by (auto simp: find_task_def find_Some_iff)


lemma succs_of_mem: "v \<in> set (succs_of tasks u) \<longleftrightarrow> (\<exists>t\<in>set tasks. task_id t = v \<and> u \<in> set (deps t))"
  by (auto simp: succs_of_def)

text \<open>
  With unique ids and the ES map of a run of the engine, a raise leads to a task
  that the order lists later.
\<close>

lemma raise_later_in_order:
  assumes dist: "distinct (map task_id tasks)"
    and r: "cpm dflt' wz tasks ms = Inr r"
    and v: "v \<in> set (succs_of tasks u)"
    and rt: "raise_target dflt tasks (ES r) m v = Inr (Some x)"
  shows "pos_in (topoSort tasks) u < pos_in (topoSort tasks) v \<and>
         pos_in (topoSort tasks) v < length (topoSort tasks)"
proof -
  let ?o = "topoSort tasks"
  from cpm_unfold[of dflt' tasks ms wz] r obtain ef where
    f: "forward_pass dflt' (fromEntries tasks []) ms ?o ([], []) = Inr (ES r, ef)"
    by auto
  have sch: "p \<in> set ?o" if "obj_get (ES r) p \<noteq> None" for p
  proof (rule ccontr)
    assume "p \<notin> set ?o"
    from forward_pass_other[OF f this] that show False by (simp add: obj_get_def)
  qed
  from raise_needs_ES[OF rt] obtain tv where tv: "find_task tasks v = Some tv"
    and ds: "\<forall>p\<in>set (deps tv). obj_get (ES r) p \<noteq> None" by blast
  from find_task_Some[OF tv] have tvm: "tv \<in> set tasks" "task_id tv = v" by simp_all
  from v obtain t where t: "t \<in> set tasks" "task_id t = v" "u \<in> set (deps t)"
    by (auto simp: succs_of_mem)
  then have "t = tv" using tvm dist by (metis distinct_map inj_on_def)
  then have u: "u \<in> set (deps tv)" using t by simp
  have "set (deps tv) \<subseteq> set ?o" using ds sch by blast
  then have "v \<in> set ?o" using topoSort_mem[OF dist tvm(1)] tvm(2) by simp
  then obtain k where k: "k < length ?o" "?o ! k = v" by (auto simp: in_set_conv_nth)
  from topoSort_preds_before[OF dist tvm(1) k(1)] k(2) tvm(2) u
  have "u \<in> set (take k ?o)" by auto
  then obtain j where j: "j < k" "?o ! j = u" using k(1) by (auto simp: in_set_conv_nth)
  have d: "distinct ?o" by (rule topoSort_distinct[OF dist])
  have "pos_in ?o v = k" using pos_in_nth[OF d k(1)] k(2) by simp
  moreover have "pos_in ?o u = j" using pos_in_nth[OF d, of j] j k(1) by simp
  ultimately show ?thesis using j(1) k(1) by simp
qed

lemma raise_target_gt:
  "raise_target dflt tasks es m v = Inr (Some x) \<Longrightarrow>
   js_gt x (to_number (dflt (obj_get m v) (obj_get es v)))"
  by (auto simp: raise_target_def Let_def split: option.splits sum.splits if_splits)

section \<open>The propagation in integers\<close>










































section \<open>Example projects\<close>

text \<open>The first sample project of \<^verbatim>\<open>INITIAL_PROJECTS\<close>.\<close>

definition house_painting :: "Task list" where
  "house_painting =
     [\<lparr>task_id = ''A'', task_name = ''Prep walls'', duration = 4, deps = []\<rparr>,
      \<lparr>task_id = ''B'', task_name = ''Mask & cover'', duration = 3, deps = [''A'']\<rparr>,
      \<lparr>task_id = ''C'', task_name = ''Buy paint'', duration = 3, deps = [''A'']\<rparr>,
      \<lparr>task_id = ''D'', task_name = ''Roll first coat'', duration = 5, deps = [''B'', ''C'']\<rparr>,
      \<lparr>task_id = ''E'', task_name = ''Second coat'', duration = 3, deps = [''D'']\<rparr>]"


text \<open>A task whose \<open>deps\<close> name an id that no task has.\<close>

definition dangling :: "Task list" where
  "dangling =
     [\<lparr>task_id = ''A'', task_name = ''A'', duration = 4, deps = []\<rparr>,
      \<lparr>task_id = ''B'', task_name = ''B'', duration = 3, deps = [''A'', ''X'']\<rparr>]"



lemma plain_dangling: "plain_ids dangling"
  by code_simp


text \<open>A task list with unique ids that \<open>topoSort\<close> orders completely is well-formed.\<close>

lemma well_formedI:
  assumes dist: "distinct (map task_id tasks)" and len: "length (topoSort tasks) = length tasks"
  shows "well_formed tasks"
proof -
  let ?o = "topoSort tasks"
  have d: "distinct ?o" by (rule topoSort_distinct[OF dist])
  have "card (set ?o) = card (task_id ` set tasks)"
    using d dist len by (simp add: distinct_card) (metis distinct_card length_map set_map)
  then have all: "set ?o = task_id ` set tasks"
    using topoSort_subset[OF dist] by (simp add: card_subset_eq)
  define f where "f v = length (takeWhile (\<lambda>x. x \<noteq> v) ?o)" for v
  have pos: "f (?o ! k) = k" if "k < length ?o" for k
  proof -
    have "\<And>j. j < k \<Longrightarrow> ?o ! j \<noteq> ?o ! k"
      using d that by (simp add: nth_eq_iff_index_eq)
    then have "k \<le> f (?o ! k)"
      unfolding f_def using that by (intro length_takeWhile_less_P_nth) auto
    moreover have "\<not> k < f (?o ! k)"
    proof
      assume "k < f (?o ! k)"
      then have "takeWhile (\<lambda>x. x \<noteq> ?o ! k) ?o ! k = ?o ! k" "k < length (takeWhile (\<lambda>x. x \<noteq> ?o ! k) ?o)"
        unfolding f_def by (simp_all add: takeWhile_nth)
      then have "?o ! k \<in> set (takeWhile (\<lambda>x. x \<noteq> ?o ! k) ?o)"
        by (metis nth_mem)
      then show False by (auto dest: set_takeWhileD)
    qed
    ultimately show ?thesis by simp
  qed
  have edge: "f dd < f (task_id t) \<and> dd \<in> task_id ` set tasks" if t: "t \<in> set tasks" and dd: "dd \<in> set (deps t)" for t dd
  proof -
    have "task_id t \<in> set ?o" using all t by blast
    then obtain k where k: "k < length ?o" "?o ! k = task_id t"
      by (auto simp: in_set_conv_nth)
    from topoSort_preds_before[OF dist t k] dd have "dd \<in> set (take k ?o)" by blast
    then obtain j where j: "j < k" "?o ! j = dd"
      using k(1) by (auto simp: in_set_conv_nth)
    have "f dd = j" using pos[of j] j k(1) by simp
    moreover have "f (task_id t) = k" using pos[OF k(1)] k(2) by simp
    moreover have "dd \<in> set ?o" using j k(1) by (metis nth_mem order.strict_trans)
    ultimately show ?thesis using j(1) all by simp
  qed
  have "dep_rel tasks \<subseteq> measure f"
    using edge by (auto simp: dep_rel_def)
  then have "wf (dep_rel tasks)" by (rule wf_subset[OF wf_measure])
  then have "acyclic (dep_rel tasks)" by (rule wf_acyclic)
  then show ?thesis
    unfolding well_formed_def using dist edge by blast
qed


text \<open>The schedule of the first sample project without overrides.\<close>

definition house_schedule :: PassResults where
  "house_schedule =
     \<lparr>ES = [(''A'', Fin 0), (''B'', Fin 4), (''C'', Fin 4), (''D'', Fin 7), (''E'', Fin 12)],
      EF = [(''A'', Fin 4), (''B'', Fin 7), (''C'', Fin 7), (''D'', Fin 12), (''E'', Fin 15)],
      LS = [(''E'', Fin 12), (''D'', Fin 7), (''C'', Fin 4), (''B'', Fin 4), (''A'', Fin 0)],
      LF = [(''E'', Fin 15), (''D'', Fin 12), (''C'', Fin 7), (''B'', Fin 7), (''A'', Fin 4)],
      slack = [(''A'', Fin 0), (''B'', Fin 0), (''C'', Fin 0), (''D'', Fin 0), (''E'', Fin 0)],
      critical = {''A'', ''B'', ''C'', ''D'', ''E''},
      projectDuration = Fin 15\<rparr>"

lemma house_schedule: "computeCPM house_painting [] = Inr house_schedule"
  by code_simp

text \<open>
  A chain of three triangles \<open>X\<^sub>i \<rightarrow> X\<^sub>i\<^sub>+\<^sub>1\<close>, \<open>X\<^sub>i \<rightarrow> Y\<^sub>i \<rightarrow> X\<^sub>i\<^sub>+\<^sub>1\<close>, listed so that
  the loop over the successors of \<open>X\<^sub>i\<close> meets \<open>X\<^sub>i\<^sub>+\<^sub>1\<close> before \<open>Y\<^sub>i\<close>.
\<close>

definition gadget :: "Task list" where
  "gadget =
     [\<lparr>task_id = ''X0'', task_name = ''X0'', duration = 1, deps = []\<rparr>,
      \<lparr>task_id = ''X1'', task_name = ''X1'', duration = 1, deps = [''X0'', ''Y0'']\<rparr>,
      \<lparr>task_id = ''Y0'', task_name = ''Y0'', duration = 4, deps = [''X0'']\<rparr>,
      \<lparr>task_id = ''X2'', task_name = ''X2'', duration = 1, deps = [''X1'', ''Y1'']\<rparr>,
      \<lparr>task_id = ''Y1'', task_name = ''Y1'', duration = 2, deps = [''X1'']\<rparr>,
      \<lparr>task_id = ''X3'', task_name = ''X3'', duration = 1, deps = [''X2'', ''Y2'']\<rparr>,
      \<lparr>task_id = ''Y2'', task_name = ''Y2'', duration = 1, deps = [''X2'']\<rparr>]"

definition gadget_schedule :: PassResults where
  "gadget_schedule =
     \<lparr>ES = [(''X0'', Fin 0), (''Y0'', Fin 1), (''X1'', Fin 5), (''Y1'', Fin 6), (''X2'', Fin 8),
            (''Y2'', Fin 9), (''X3'', Fin 10)],
      EF = [(''X0'', Fin 1), (''Y0'', Fin 5), (''X1'', Fin 6), (''Y1'', Fin 8), (''X2'', Fin 9),
            (''Y2'', Fin 10), (''X3'', Fin 11)],
      LS = [(''X3'', Fin 10), (''Y2'', Fin 9), (''X2'', Fin 8), (''Y1'', Fin 6), (''X1'', Fin 5),
            (''Y0'', Fin 1), (''X0'', Fin 0)],
      LF = [(''X3'', Fin 11), (''Y2'', Fin 10), (''X2'', Fin 9), (''Y1'', Fin 8), (''X1'', Fin 6),
            (''Y0'', Fin 5), (''X0'', Fin 1)],
      slack = [(''X0'', Fin 0), (''X1'', Fin 0), (''Y0'', Fin 0), (''X2'', Fin 0), (''Y1'', Fin 0),
               (''X3'', Fin 0), (''Y2'', Fin 0)],
      critical = {''X0'', ''X1'', ''Y0'', ''X2'', ''Y1'', ''X3'', ''Y2''},
      projectDuration = Fin 11\<rparr>"

lemma well_formed_gadget: "well_formed gadget"
  by (rule well_formedI) (simp add: gadget_def, code_simp)

text \<open>
  The overrides that dragging \<open>B\<close> of the house painting project from 4 to 6 leaves
  behind, and the schedule that the engine computes with them.
\<close>

definition dragged_overrides :: "jsnum obj" where
  "dragged_overrides = [(''B'', Fin 6), (''D'', Fin 9), (''E'', Fin 14)]"

definition dragged_schedule :: PassResults where
  "dragged_schedule =
     \<lparr>ES = [(''A'', Fin 0), (''B'', Fin 6), (''C'', Fin 4), (''D'', Fin 9), (''E'', Fin 14)],
      EF = [(''A'', Fin 4), (''B'', Fin 9), (''C'', Fin 7), (''D'', Fin 14), (''E'', Fin 17)],
      LS = [(''E'', Fin 14), (''D'', Fin 9), (''C'', Fin 6), (''B'', Fin 6), (''A'', Fin 2)],
      LF = [(''E'', Fin 17), (''D'', Fin 14), (''C'', Fin 9), (''B'', Fin 9), (''A'', Fin 6)],
      slack = [(''A'', Fin 2), (''B'', Fin 0), (''C'', Fin 2), (''D'', Fin 0), (''E'', Fin 0)],
      critical = {''B'', ''D'', ''E''},
      projectDuration = Fin 17\<rparr>"

text \<open>
  The drag of \<open>B\<close> two units to the right on the plain schedule, and two units back
  to the left on the schedule with the overrides, in both copies of the propagation.
\<close>

lemma dragged_schedule: "computeCPM house_painting dragged_overrides = Inr dragged_schedule"
  by code_simp

lemma nonneg_dragged: "nonneg_map dragged_overrides"
  by (auto simp: nonneg_map_def dragged_overrides_def obj_get_def split: if_splits)

lemma drag_right: "onMouseMove 6 nullish house_painting house_schedule [] ''B'' (Fin 4) 2 =
     Some (Inr (dragged_overrides, [''B'', ''D'', ''E'']))"
  by code_simp


lemma house_schedule_v2: "computeCPM_v2 house_painting [] = Inr house_schedule"
  by code_simp

lemma drag_right_v2: "onMouseMove 6 logical_or house_painting house_schedule [] ''B'' (Fin 4) 2 =
    Some (Inr (dragged_overrides, [''B'', ''D'', ''E'']))"
  by code_simp

lemma dragged_schedule_v2: "computeCPM_v2 house_painting dragged_overrides = Inr dragged_schedule"
  by code_simp

section \<open>The claims\<close>







text \<open>
  Claim C8 fails as stated: a task with a dangling predecessor id is not scheduled
  at all. Here \<open>B\<close> depends on \<open>A\<close> and on the missing \<open>X\<close>; it gets no ES, and its
  existing predecessor \<open>A\<close> loses its latest times to \<open>NaN\<close>.
\<close>

theorem dangling_counterexample:
  "computeCPM dangling [] =
     Inr \<lparr>ES = [(''A'', Fin 0)], EF = [(''A'', Fin 4)], LS = [(''A'', NaN)], LF = [(''A'', NaN)],
          slack = [(''A'', NaN), (''B'', NaN)], critical = {}, projectDuration = Fin 4\<rparr>"
  by code_simp

text \<open>
  Claim C8, amended. On a task list with unique, plain ids, a task whose \<open>deps\<close>
  contain an id that matches no task is omitted from the topological order, and
  \<open>computeCPM\<close> gives it no ES, EF, LS or LF entry.
\<close>

theorem dangling_pred_omits_task:
  assumes "distinct (map task_id tasks)" "plain_ids tasks"
    and "t \<in> set tasks" "d \<in> set (deps t)" "d \<notin> task_id ` set tasks"
  shows "task_id t \<notin> set (topoSort tasks) \<and>
         (\<exists>r. computeCPM tasks minStart = Inr r \<and>
            obj_get (ES r) (task_id t) = None \<and> obj_get (EF r) (task_id t) = None \<and>
            obj_get (LS r) (task_id t) = None \<and> obj_get (LF r) (task_id t) = None)"
proof -
  have "d \<notin> set (topoSort tasks)" using topoSort_ids[of tasks] assms(5) by blast
  then have "\<not> set (deps t) \<subseteq> set (topoSort tasks)" using assms(4) by blast
  then have n: "task_id t \<notin> set (topoSort tasks)" using topoSort_mem[OF assms(1,3)] by simp
  from cpm_omitted[OF assms(3) n, of nullish True minStart] n show ?thesis
    unfolding computeCPM_def by blast
qed

theorem dangling_pred_omits_task_witness:
  "distinct (map task_id dangling) \<and> plain_ids dangling \<and>
   last dangling \<in> set dangling \<and> ''X'' \<in> set (deps (last dangling)) \<and>
   ''X'' \<notin> task_id ` set dangling \<and> task_id (last dangling) = ''B'' \<and>
   ''B'' \<notin> set (topoSort dangling) \<and>
   (\<exists>r. computeCPM dangling [] = Inr r \<and>
      obj_get (ES r) ''B'' = None \<and> obj_get (EF r) ''B'' = None \<and>
      obj_get (LS r) ''B'' = None \<and> obj_get (LF r) ''B'' = None)"
proof -
  have a: "distinct (map task_id dangling)" "last dangling \<in> set dangling" "''X'' \<in> set (deps (last dangling))"
    "''X'' \<notin> task_id ` set dangling" "task_id (last dangling) = ''B''"
    by (simp_all add: dangling_def)
  from dangling_pred_omits_task[OF a(1) plain_dangling a(2-4), of "[]"] a plain_dangling
  show ?thesis by simp
qed







text \<open>
  Claim C9 fails in its bound: on this acyclic network of 7 tasks, dragging \<open>X0\<close>
  from 0 to 8 makes the recursion enter \<open>X3\<close> 8 times.
\<close>

theorem visits_exceed_task_count:
  "well_formed gadget \<and> length gadget = 7 \<and>
   computeCPM gadget [] = Inr gadget_schedule \<and>
   onBarMouseDown nullish gadget_schedule [] ''X0'' = Fin 0 \<and>
   onMouseMove 8 nullish gadget gadget_schedule [] ''X0'' (Fin 0) 8 =
     Some (Inr ([(''X0'', Fin 8), (''X1'', Fin 13), (''X2'', Fin 16), (''X3'', Fin 18),
                 (''Y2'', Fin 17), (''Y1'', Fin 14), (''Y0'', Fin 9)],
                [''X0'', ''X1'', ''X2'', ''X3'', ''Y2'', ''X3'', ''Y1'', ''X2'', ''X3'', ''Y2'', ''X3'',
                 ''Y0'', ''X1'', ''X2'', ''X3'', ''Y2'', ''X3'', ''Y1'', ''X2'', ''X3'', ''Y2'', ''X3''])) \<and>
   count_list [''X0'', ''X1'', ''X2'', ''X3'', ''Y2'', ''X3'', ''Y1'', ''X2'', ''X3'', ''Y2'', ''X3'',
               ''Y0'', ''X1'', ''X2'', ''X3'', ''Y2'', ''X3'', ''Y1'', ''X2'', ''X3'', ''Y2'', ''X3''] ''X3'' = 8"
proof -
  have 1: "computeCPM gadget [] = Inr gadget_schedule" by code_simp
  have 2: "onBarMouseDown nullish gadget_schedule [] ''X0'' = Fin 0" by code_simp
  have 3: "onMouseMove 8 nullish gadget gadget_schedule [] ''X0'' (Fin 0) 8 =
     Some (Inr ([(''X0'', Fin 8), (''X1'', Fin 13), (''X2'', Fin 16), (''X3'', Fin 18),
                 (''Y2'', Fin 17), (''Y1'', Fin 14), (''Y0'', Fin 9)],
                [''X0'', ''X1'', ''X2'', ''X3'', ''Y2'', ''X3'', ''Y1'', ''X2'', ''X3'', ''Y2'', ''X3'',
                 ''Y0'', ''X1'', ''X2'', ''X3'', ''Y2'', ''X3'', ''Y1'', ''X2'', ''X3'', ''Y2'', ''X3'']))"
    by code_simp
  have 4: "length gadget = 7" by (simp add: gadget_def)
  show ?thesis using well_formed_gadget 1 2 3 4 by simp
qed

text \<open>
  Claim C9, amended. On every task list with unique ids, acyclic or not, and with
  the ES map of a run of the engine, \<open>propagate\<close> returns, within recursion depth
  N + 1 for N tasks, from every task and every state, with either defaulting
  operator; and it recurses into a successor only when that successor's new value is
  strictly greater than its current one.
\<close>

theorem propagation_terminates:
  assumes "distinct (map task_id tasks)"
    and "c \<in> {computeCPM, computeCPM_second, computeCPM_v2}"
    and "c tasks minStart = Inr computed"
  shows "(\<exists>res. \<forall>n>length tasks. propagate n dflt tasks (ES computed) u st = Some res) \<and>
         (\<forall>m v x. raise_target dflt tasks (ES computed) m v = Inr (Some x) \<longrightarrow>
            js_gt x (to_number (dflt (obj_get m v) (obj_get (ES computed) v))))"
proof -
  from assms(2) obtain dflt' wz where c: "c = cpm dflt' wz"
    by (auto simp: computeCPM_def computeCPM_second_def computeCPM_v2_def)
  let ?o = "topoSort tasks"
  have len: "length ?o \<le> length tasks"
    using topoSort_distinct[OF assms(1)] topoSort_subset[OF assms(1)]
    by (metis card_image_le card_mono distinct_card finite_imageI finite_set le_trans card_length)
  have raise: "pos_in ?o u < pos_in ?o v \<and> pos_in ?o v < length ?o"
    if "v \<in> set (succs_of tasks u)" "raise_target dflt tasks (ES computed) m v = Inr (Some x)" for u v m x
    by (rule raise_later_in_order[OF assms(1) assms(3)[unfolded c] that])
  have "\<exists>res. propagate (Suc (length tasks)) dflt tasks (ES computed) u st = Some res"
  proof (rule propagate_terminates_rank[where rk = "pos_in ?o" and N = "length ?o"])
    show "length ?o - pos_in ?o u \<le> length tasks" using len by simp
    show "pos_in ?o u' < pos_in ?o v \<and> pos_in ?o v < length ?o"
      if "v \<in> set (succs_of tasks u')" "raise_target dflt tasks (ES computed) m v = Inr (Some x)"
      for u' v m x
      by (rule raise[OF that])
  qed
  then obtain res where res: "propagate (Suc (length tasks)) dflt tasks (ES computed) u st = Some res"
    by blast
  have "propagate n dflt tasks (ES computed) u st = Some res" if "n > length tasks" for n
  proof -
    from that obtain k where "n = Suc (length tasks) + k" by (metis less_iff_Suc_add add_Suc)
    then show ?thesis using fuel_mono[of "Suc (length tasks)" dflt tasks "ES computed" u st res k] res
      by simp
  qed
  then show ?thesis using raise_target_gt by blast
qed

theorem propagation_terminates_witness:
  "distinct (map task_id house_painting) \<and> computeCPM \<in> {computeCPM, computeCPM_second, computeCPM_v2} \<and>
   computeCPM house_painting [] = Inr house_schedule \<and>
   (\<exists>res. propagate 6 nullish house_painting (ES house_schedule) ''B'' ([(''B'', Fin 6)], []) = Some res \<and>
          propagate 7 nullish house_painting (ES house_schedule) ''B'' ([(''B'', Fin 6)], []) = Some res)"
proof -
  have d: "distinct (map task_id house_painting)" by (simp add: house_painting_def)
  have c: "computeCPM \<in> {computeCPM, computeCPM_second, computeCPM_v2}" by simp
  have l: "length house_painting = 5" by (simp add: house_painting_def)
  from propagation_terminates[OF d c house_schedule, THEN conjunct1, of nullish "''B''" "([(''B'', Fin 6)], [])"]
  obtain res where "\<forall>n>5. propagate n nullish house_painting (ES house_schedule) ''B'' ([(''B'', Fin 6)], []) = Some res"
    unfolding l by blast
  then have "propagate 6 nullish house_painting (ES house_schedule) ''B'' ([(''B'', Fin 6)], []) = Some res"
    "propagate 7 nullish house_painting (ES house_schedule) ''B'' ([(''B'', Fin 6)], []) = Some res"
    by simp_all
  then show ?thesis using d c house_schedule by blast
qed

text \<open>
  Claim C3. The worked example holds in both copies of the propagation: on the house
  painting project, dragging \<open>B\<close> from 4 to 6 gives \<open>{B: 6, D: 9, E: 14}\<close>, and the engine
  run with this map gives project duration 17. For \<^verbatim>\<open>App.tsx\<close> the general statement is
  lemma \<open>drag_result\<close> above. The copy of \<^verbatim>\<open>app.js\<close> reads the present override with
  \<^verbatim>\<open>||\<close> where \<^verbatim>\<open>App.tsx\<close> has \<^verbatim>\<open>??\<close>, so an override of 0 counts as absent: with
  \<open>minStart = {D: 0}\<close> (ES of \<open>D\<close> is 7) and \<open>B\<close> dragged by 0 units from its start 4, the
  conservative floor of \<open>D\<close> is 7, above its override 0; \<^verbatim>\<open>App.tsx\<close> raises \<open>D\<close> to 7, and
  \<^verbatim>\<open>app.js\<close> compares the floor with ES and leaves the entry of \<open>D\<close> at 0.
\<close>

theorem drag_zero_override:
  "computeCPM house_painting [] = Inr house_schedule \<and>
   computeCPM_v2 house_painting [] = Inr house_schedule \<and>
   onBarMouseDown nullish house_schedule [] ''B'' = Fin 4 \<and>
   onBarMouseDown logical_or house_schedule [] ''B'' = Fin 4 \<and>
   onMouseMove 6 nullish house_painting house_schedule [] ''B'' (Fin 4) 2 =
     Some (Inr ([(''B'', Fin 6), (''D'', Fin 9), (''E'', Fin 14)], [''B'', ''D'', ''E''])) \<and>
   onMouseMove 6 logical_or house_painting house_schedule [] ''B'' (Fin 4) 2 =
     Some (Inr ([(''B'', Fin 6), (''D'', Fin 9), (''E'', Fin 14)], [''B'', ''D'', ''E''])) \<and>
   computeCPM house_painting [(''B'', Fin 6), (''D'', Fin 9), (''E'', Fin 14)] = Inr dragged_schedule \<and>
   computeCPM_v2 house_painting [(''B'', Fin 6), (''D'', Fin 9), (''E'', Fin 14)] = Inr dragged_schedule \<and>
   projectDuration dragged_schedule = Fin 17 \<and>
   computeCPM house_painting [(''D'', Fin 0)] = Inr house_schedule \<and>
   computeCPM_v2 house_painting [(''D'', Fin 0)] = Inr house_schedule \<and>
   obj_get (ES house_schedule) ''D'' = Some (Fin 7) \<and>
   onBarMouseDown nullish house_schedule [(''D'', Fin 0)] ''B'' = Fin 4 \<and>
   onBarMouseDown logical_or house_schedule [(''D'', Fin 0)] ''B'' = Fin 4 \<and>
   conservative_EFs nullish house_painting (ES house_schedule) [(''D'', Fin 0), (''B'', Fin 4)] [''B'', ''C''] =
     Inr [Fin 7, Fin 7] \<and>
   conservative_EFs logical_or house_painting (ES house_schedule) [(''D'', Fin 0), (''B'', Fin 4)] [''B'', ''C''] =
     Inr [Fin 7, Fin 7] \<and>
   onMouseMove 6 nullish house_painting house_schedule [(''D'', Fin 0)] ''B'' (Fin 4) 0 =
     Some (Inr ([(''D'', Fin 7), (''B'', Fin 4)], [''B'', ''D''])) \<and>
   onMouseMove 6 logical_or house_painting house_schedule [(''D'', Fin 0)] ''B'' (Fin 4) 0 =
     Some (Inr ([(''D'', Fin 0), (''B'', Fin 4)], [''B'']))"
proof -
  have 1: "onBarMouseDown nullish house_schedule [] ''B'' = Fin 4"
    "onBarMouseDown logical_or house_schedule [] ''B'' = Fin 4"
    by code_simp+
  have 2: "projectDuration dragged_schedule = Fin 17" by (simp add: dragged_schedule_def)
  have 3: "computeCPM house_painting [(''D'', Fin 0)] = Inr house_schedule"
    "computeCPM_v2 house_painting [(''D'', Fin 0)] = Inr house_schedule"
    by code_simp+
  have 4: "obj_get (ES house_schedule) ''D'' = Some (Fin 7)"
    by (simp add: house_schedule_def obj_get_def)
  have 5: "onBarMouseDown nullish house_schedule [(''D'', Fin 0)] ''B'' = Fin 4"
    "onBarMouseDown logical_or house_schedule [(''D'', Fin 0)] ''B'' = Fin 4"
    by code_simp+
  have 6: "conservative_EFs nullish house_painting (ES house_schedule) [(''D'', Fin 0), (''B'', Fin 4)]
      [''B'', ''C''] = Inr [Fin 7, Fin 7]"
    "conservative_EFs logical_or house_painting (ES house_schedule) [(''D'', Fin 0), (''B'', Fin 4)]
      [''B'', ''C''] = Inr [Fin 7, Fin 7]"
    by code_simp+
  have 7: "onMouseMove 6 nullish house_painting house_schedule [(''D'', Fin 0)] ''B'' (Fin 4) 0 =
     Some (Inr ([(''D'', Fin 7), (''B'', Fin 4)], [''B'', ''D'']))"
    by code_simp
  have 8: "onMouseMove 6 logical_or house_painting house_schedule [(''D'', Fin 0)] ''B'' (Fin 4) 0 =
     Some (Inr ([(''D'', Fin 0), (''B'', Fin 4)], [''B'']))"
    by code_simp
  show ?thesis
    using house_schedule house_schedule_v2 1 drag_right drag_right_v2 dragged_schedule
      dragged_schedule_v2 2 3 4 5 6 7 8
    unfolding dragged_overrides_def by simp
qed




end
